theory Spec2Isabelle
  imports Complex_Main "HOL-Library.AList"
begin

section \<open>MidiInputManager: data model (src/lib/midiInputManager.ts)\<close>

text \<open>
  MIDI data (note numbers, velocities, controller numbers and values) are integers; the
  caller in src/app/sound/page.tsx passes \<open>e.note.number\<close> and a velocity clamped to 0..127.
  Times and window lengths are milliseconds read from \<open>performance.now()\<close> and are real
  numbers here, as are the blend factors.
\<close>

datatype Hand = L | R

datatype Role = Chord | Dyad | BassLine | Arpeggio | Cluster

record MidiInputManagerConfig =
  chordWindowMsRight :: real
  chordWindowMsLeft :: real
  earlyCloseCountRight :: int
  earlyCloseCountLeft :: int
  rollExtensionMsRight :: real
  rollExtensionMsLeft :: real
  splitInitialMidi :: int
  splitMin :: int
  splitMax :: int
  splitAdaptIntervalMs :: real
  splitShiftThreshold :: int
  leftBassArpGapMs :: real
  velocityBlendRight :: real
  velocityBlendLeft :: real
  maxClusterSize :: int
  sustainIncludesBuffer :: bool

record BufferedNote =
  midi :: int
  velocity :: int
  time :: real

record ActiveNote = BufferedNote +
  sustained :: bool
  hand :: Hand

text \<open>
  The fields of \<open>ChordEvent\<close> and \<open>SplitChangeEvent\<close> whose names are already taken by
  another record or by a constant of the library carry the prefix \<open>ce_\<close> or \<open>sc_\<close>.
  An optional field (\<open>inversion?\<close>, \<open>root?\<close>) and a nullable one (\<open>name\<close>) is an option.
\<close>

record ChordEvent =
  ce_hand :: Hand
  ce_name :: "string option"
  inversion :: "int option"
  ce_notes :: "int list"
  velocities :: "int list"
  role :: Role
  ce_root :: "int option"
  pitchClasses :: "int list"
  ce_timestamp :: real
  rawWindowMs :: real

record SplitChangeEvent =
  splitMidi :: int
  sc_timestamp :: real

text \<open>A timer handle of the host (\<open>setTimeout\<close>, \<open>setInterval\<close>) is a positive number.\<close>

record BufferState =
  bufNotes :: "BufferedNote list"
  firstTime :: "real option"
  timer :: "nat option"
  lastEmissionTime :: real

definition DEFAULTS :: MidiInputManagerConfig where
  "DEFAULTS = \<lparr> chordWindowMsRight = 50, chordWindowMsLeft = 80,
      earlyCloseCountRight = 4, earlyCloseCountLeft = 3,
      rollExtensionMsRight = 180, rollExtensionMsLeft = 250,
      splitInitialMidi = 60, splitMin = 52, splitMax = 64,
      splitAdaptIntervalMs = 1000, splitShiftThreshold = 5,
      leftBassArpGapMs = 120,
      velocityBlendRight = 1 / 2, velocityBlendLeft = 1 / 5,
      maxClusterSize = 7, sustainIncludesBuffer = True \<rparr>"

subsection \<open>The collaborators: chord naming and subscribers\<close>

text \<open>
  \<open>Chord.detect\<close> of the library tonal is not part of the repository. It is a parameter:
  on a list of note names (a name is missing where \<open>pcToNote[pc]\<close> is undefined) it
  throws, returns a null-like value, or returns a list of names.

  A subscriber is opaque too. It is identified by a number, the sets \<open>chordCallbacks\<close>
  and \<open>splitCallbacks\<close> are lists in insertion order without repetition (the order in
  which a JavaScript Set is iterated), and the parameters \<open>chordThrows\<close> and
  \<open>splitThrows\<close> say which invocations throw. A callback that calls back into the
  manager while it runs is outside this model.
\<close>

datatype detect_result = DetectThrows | DetectNull | DetectNames "string list"

record env =
  detect :: "string option list \<Rightarrow> detect_result"
  chordThrows :: "nat \<Rightarrow> ChordEvent \<Rightarrow> bool"
  splitThrows :: "nat \<Rightarrow> SplitChangeEvent \<Rightarrow> bool"

datatype outcome = Returned | Threw

subsection \<open>The manager, the host's timers and the observations\<close>

text \<open>
  The fields up to \<open>disposed\<close> are those of the class. \<open>pendingTimeouts\<close>,
  \<open>pendingIntervals\<close> and \<open>nextHandle\<close> are the host's timer table: \<open>setTimeout\<close> and
  \<open>setInterval\<close> add an entry under a fresh handle, \<open>clearTimeout\<close> and
  \<open>clearInterval\<close> remove it, and a timeout that fires leaves the table while the handle
  stays in the field that holds it. The last five fields record what an observer sees:
  each call of \<open>emitChord\<close> and \<open>emitSplitChange\<close> with its event, each invocation of a
  subscriber, and the number of exceptions that left an entry point or a timer callback.
\<close>

record state =
  cfg :: MidiInputManagerConfig
  splitPoint :: int
  chordCallbacks :: "nat list"
  splitCallbacks :: "nat list"
  bufferL :: BufferState
  bufferR :: BufferState
  activeNotes :: "(int \<times> ActiveNote) list"
  pedalDown :: bool
  recentNoteOns :: "int list"
  adaptTimer :: "nat option"
  disposed :: bool
  pendingTimeouts :: "(nat \<times> Hand \<times> real) list"
  pendingIntervals :: "(nat \<times> real) list"
  nextHandle :: nat
  emittedChords :: "ChordEvent list"
  deliveredChords :: "(nat \<times> ChordEvent) list"
  emittedSplits :: "SplitChangeEvent list"
  deliveredSplits :: "(nat \<times> SplitChangeEvent) list"
  uncaught :: nat

section \<open>JavaScript primitives\<close>

text \<open>\<open>Math.round\<close> rounds to the nearest integer, a half towards plus infinity.\<close>

definition js_round :: "real \<Rightarrow> int" where
  "js_round x = \<lfloor>x + 1 / 2\<rfloor>"

text \<open>\<open>a % b\<close> on integers: the remainder has the sign of the dividend.\<close>

definition js_rem :: "int \<Rightarrow> int \<Rightarrow> int" where
  "js_rem a b = sgn a * (\<bar>a\<bar> mod \<bar>b\<bar>)"

text \<open>\<open>Array.from(new Set(xs))\<close>: the first occurrence of each element, in order.\<close>

definition js_set :: "int list \<Rightarrow> int list" where
  "js_set xs = fold (\<lambda>x acc. if x \<in> set acc then acc else acc @ [x]) xs []"

text \<open>\<open>xs.indexOf(x)\<close>: the first index of x, or -1.\<close>

fun indexOf :: "int list \<Rightarrow> int \<Rightarrow> int" where
  "indexOf [] x = -1"
| "indexOf (y # ys) x = (if y = x then 0 else (let i = indexOf ys x in if i = -1 then -1 else i + 1))"

definition setTimeout :: "Hand \<Rightarrow> real \<Rightarrow> state \<Rightarrow> nat \<times> state" where
  "setTimeout h delay s =
     (nextHandle s,
      s\<lparr>pendingTimeouts := pendingTimeouts s @ [(nextHandle s, h, delay)],
        nextHandle := nextHandle s + 1\<rparr>)"

definition clearTimeout :: "nat \<Rightarrow> state \<Rightarrow> state" where
  "clearTimeout t s = s\<lparr>pendingTimeouts := filter (\<lambda>p. fst p \<noteq> t) (pendingTimeouts s)\<rparr>"

definition setInterval :: "real \<Rightarrow> state \<Rightarrow> nat \<times> state" where
  "setInterval period s =
     (nextHandle s,
      s\<lparr>pendingIntervals := pendingIntervals s @ [(nextHandle s, period)],
        nextHandle := nextHandle s + 1\<rparr>)"

definition clearInterval :: "nat \<Rightarrow> state \<Rightarrow> state" where
  "clearInterval t s = s\<lparr>pendingIntervals := filter (\<lambda>p. fst p \<noteq> t) (pendingIntervals s)\<rparr>"

section \<open>The methods of MidiInputManager\<close>

definition getBuf :: "Hand \<Rightarrow> state \<Rightarrow> BufferState" where
  "getBuf h s = (if h = L then bufferL s else bufferR s)"

definition putBuf :: "Hand \<Rightarrow> BufferState \<Rightarrow> state \<Rightarrow> state" where
  "putBuf h b s = (if h = L then s\<lparr>bufferL := b\<rparr> else s\<lparr>bufferR := b\<rparr>)"

subsection \<open>Utilities (lines 338-347)\<close>

definition median :: "int list \<Rightarrow> int" where
  "median values =
     (if length values = 0 then 64
      else (let sorted = sort values; mid = length sorted div 2 in
        if length sorted mod 2 = 0
        then js_round ((real_of_int (sorted ! (mid - 1)) + real_of_int (sorted ! mid)) / 2)
        else sorted ! mid))"

definition blendVelocity :: "int \<Rightarrow> int \<Rightarrow> real \<Rightarrow> int" where
  "blendVelocity original med blend =
     js_round (real_of_int med + (real_of_int original - real_of_int med) * (1 - blend))"

subsection \<open>clearTimer, resetBuffer (lines 299-308)\<close>

definition clearTimer :: "Hand \<Rightarrow> state \<Rightarrow> state" where
  "clearTimer h s =
     (let s1 = (case timer (getBuf h s) of None \<Rightarrow> s | Some t \<Rightarrow> clearTimeout t s)
      in putBuf h ((getBuf h s1)\<lparr>timer := None\<rparr>) s1)"

definition resetBuffer :: "Hand \<Rightarrow> state \<Rightarrow> state" where
  "resetBuffer h s =
     (let s1 = clearTimer h s
      in putBuf h ((getBuf h s1)\<lparr>bufNotes := [], firstTime := None\<rparr>) s1)"

subsection \<open>emitChord, emitSplitChange (lines 295-297, 332-335)\<close>

text \<open>
  The loop \<open>for (const cb of callbacks) cb(evt)\<close> has no handler: the first callback
  that throws ends it. The result is the callbacks invoked, in order, and whether the
  last of them threw.
\<close>

fun invokeAll :: "(nat \<Rightarrow> 'e \<Rightarrow> bool) \<Rightarrow> nat list \<Rightarrow> 'e \<Rightarrow> nat list \<times> outcome" where
  "invokeAll throws [] evt = ([], Returned)"
| "invokeAll throws (cb # cbs) evt =
     (if throws cb evt then ([cb], Threw)
      else (let (invoked, out) = invokeAll throws cbs evt in (cb # invoked, out)))"

definition emitChord :: "env \<Rightarrow> ChordEvent \<Rightarrow> state \<Rightarrow> outcome \<times> state" where
  "emitChord e evt s =
     (let (invoked, out) = invokeAll (chordThrows e) (chordCallbacks s) evt
      in (out, s\<lparr>emittedChords := emittedChords s @ [evt],
                 deliveredChords := deliveredChords s @ map (\<lambda>cb. (cb, evt)) invoked\<rparr>))"

definition emitSplitChange :: "env \<Rightarrow> real \<Rightarrow> state \<Rightarrow> outcome \<times> state" where
  "emitSplitChange e now s =
     (let evt = \<lparr>splitMidi = splitPoint s, sc_timestamp = now\<rparr>;
          (invoked, out) = invokeAll (splitThrows e) (splitCallbacks s) evt
      in (out, s\<lparr>emittedSplits := emittedSplits s @ [evt],
                 deliveredSplits := deliveredSplits s @ map (\<lambda>cb. (cb, evt)) invoked\<rparr>))"

subsection \<open>classifyRole, detectChord (lines 274-293)\<close>

definition classifyRole :: "MidiInputManagerConfig \<Rightarrow> Hand \<Rightarrow> int list \<Rightarrow> int list \<Rightarrow> real \<Rightarrow> Role" where
  "classifyRole c h noteSet pcs windowMs =
     (if int (length pcs) \<ge> maxClusterSize c then Cluster
      else if length pcs \<ge> 3 then Chord
      else if length pcs = 2 then Dyad
      else if h = L \<and> windowMs > leftBassArpGapMs c then BassLine
      else Arpeggio)"

definition pcToNote :: "int \<Rightarrow> string option" where
  "pcToNote pc =
     (if 0 \<le> pc \<and> pc < 12
      then Some ([''C'', ''C#'', ''D'', ''D#'', ''E'', ''F'', ''F#'', ''G'', ''G#'', ''A'', ''A#'', ''B''] ! nat pc)
      else None)"

text \<open>
  The result is \<open>Inl ()\<close> when \<open>Chord.detect\<close> throws (nothing in detectChord catches
  it), and otherwise the name or null. The sort by length is stable, as
  \<open>Array.prototype.sort\<close> is.
\<close>

definition detectChord :: "env \<Rightarrow> int list \<Rightarrow> unit + string option" where
  "detectChord e pcs =
     (case detect e (map pcToNote pcs) of
        DetectThrows \<Rightarrow> Inl ()
      | DetectNull \<Rightarrow> Inr None
      | DetectNames detected \<Rightarrow>
          if length detected = 0 then Inr None
          else Inr (Some (hd (sort_key length detected))))"

subsection \<open>processBuffer (lines 212-272)\<close>

text \<open>Lines 221-229: the pitches of the buffer, then the sustained sounding notes of the hand.\<close>

definition gatherNoteSet :: "MidiInputManagerConfig \<Rightarrow> Hand \<Rightarrow> BufferedNote list \<Rightarrow> (int \<times> ActiveNote) list \<Rightarrow> int list" where
  "gatherNoteSet c h bnotes actives =
     (let noteSet = map midi bnotes;
          noteSet1 = (if sustainIncludesBuffer c
            then fold (\<lambda>an acc. if hand an = h \<and> sustained an \<and> midi an \<notin> set acc
                                 then acc @ [midi an] else acc) (map snd actives) noteSet
            else noteSet)
      in sort noteSet1)"

text \<open>
  Lines 218-268, from the reading of the clock to the event record. \<open>now\<close> is the
  reading of \<open>performance.now()\<close> during the call; the two readings of lines 218 and
  266 are taken in one synchronous run and are the same value here. The result is
  \<open>Inl ()\<close> when detectChord throws. A name is truthy when it is not null and not the
  empty string.
\<close>

definition composeEvent :: "env \<Rightarrow> Hand \<Rightarrow> real \<Rightarrow> state \<Rightarrow> unit + ChordEvent" where
  "composeEvent e h now s =
     (let buf = getBuf h s;
          windowMs = now - the (firstTime buf);
          noteSet = gatherNoteSet (cfg s) h (bufNotes buf) (activeNotes s);
          distinctPitchClasses = sort (js_set (map (\<lambda>n. js_rem n 12) noteSet));
          velocitiesOriginal = map velocity (bufNotes buf);
          medianVel = median velocitiesOriginal;
          blend = (if h = R then velocityBlendRight (cfg s) else velocityBlendLeft (cfg s));
          velocitiesNormalized = map (\<lambda>v. blendVelocity (velocity v) medianVel blend) (bufNotes buf);
          role = classifyRole (cfg s) h noteSet distinctPitchClasses windowMs
      in case (if role = Chord \<or> role = Dyad \<or> role = Cluster
               then detectChord e distinctPitchClasses else Inr None) of
           Inl _ \<Rightarrow> Inl ()
         | Inr chordName \<Rightarrow>
            (let named = (chordName \<noteq> None \<and> chordName \<noteq> Some [] \<and> length noteSet > 0);
                 inv = (if named then Some (indexOf distinctPitchClasses (js_rem (hd noteSet) 12)) else None);
                 root = (if named then Some (hd noteSet) else None)
             in Inr \<lparr> ce_hand = h, ce_name = chordName,
                       inversion = (if inv \<noteq> Some (-1) then inv else None),
                       ce_notes = noteSet, velocities = velocitiesNormalized,
                       role = role, ce_root = root,
                       pitchClasses = distinctPitchClasses,
                       ce_timestamp = now, rawWindowMs = windowMs \<rparr>))"

text \<open>
  \<open>!buf.firstTime\<close> holds for null and for the number 0. When detectChord or a
  subscriber throws, the exception leaves processBuffer before \<open>resetBuffer\<close> runs.
\<close>

definition processBuffer :: "env \<Rightarrow> Hand \<Rightarrow> real \<Rightarrow> state \<Rightarrow> outcome \<times> state" where
  "processBuffer e h now s =
     (let buf = getBuf h s in
      if firstTime buf = None \<or> firstTime buf = Some 0 \<or> length (bufNotes buf) = 0
      then (Returned, resetBuffer h s)
      else case composeEvent e h now s of
             Inl _ \<Rightarrow> (Threw, s)
           | Inr event \<Rightarrow>
               (case emitChord e event s of
                  (Threw, s1) \<Rightarrow> (Threw, s1)
                | (Returned, s1) \<Rightarrow> (Returned, resetBuffer h s1)))"

subsection \<open>pushToBuffer (lines 184-210)\<close>

definition pushToBuffer :: "env \<Rightarrow> Hand \<Rightarrow> BufferedNote \<Rightarrow> real \<Rightarrow> state \<Rightarrow> outcome \<times> state" where
  "pushToBuffer e h note now s =
     (let buf = getBuf h s;
          cfgWindow = (if h = L then chordWindowMsLeft (cfg s) else chordWindowMsRight (cfg s));
          earlyCount = (if h = L then earlyCloseCountLeft (cfg s) else earlyCloseCountRight (cfg s))
      in case firstTime buf of
           None \<Rightarrow>
             (let s1 = putBuf h (buf\<lparr>firstTime := Some (time note), bufNotes := [note]\<rparr>) s;
                  (t, s2) = setTimeout h cfgWindow s1
              in (Returned, putBuf h ((getBuf h s2)\<lparr>timer := Some t\<rparr>) s2))
         | Some ft \<Rightarrow>
             (let s1 = putBuf h (buf\<lparr>bufNotes := bufNotes buf @ [note]\<rparr>) s in
              if int (length (bufNotes (getBuf h s1))) \<ge> earlyCount \<and> time note - ft < cfgWindow * (6 / 10)
              then processBuffer e h now (clearTimer h s1)
              else
               (let rollExtension = (if h = L then rollExtensionMsLeft (cfg s) else rollExtensionMsRight (cfg s)) in
                if time note - ft > cfgWindow \<and> time note - ft \<le> rollExtension
                then (let s2 = clearTimer h s1;
                          (t, s3) = setTimeout h (max 10 (rollExtension - (time note - ft))) s2
                      in (Returned, putBuf h ((getBuf h s3)\<lparr>timer := Some t\<rparr>) s3))
                else (Returned, s1))))"

subsection \<open>The entry points (lines 146-181)\<close>

definition handleNoteOn :: "env \<Rightarrow> int \<Rightarrow> int \<Rightarrow> real \<Rightarrow> real \<Rightarrow> state \<Rightarrow> outcome \<times> state" where
  "handleNoteOn e m v t now s =
     (if disposed s then (Returned, s)
      else (let h = (if m < splitPoint s then L else R);
                note = \<lparr>midi = m, velocity = v, time = t, sustained = False, hand = h\<rparr>;
                s1 = s\<lparr>activeNotes := AList.update m note (activeNotes s),
                       recentNoteOns := recentNoteOns s @ [m]\<rparr>
            in pushToBuffer e h \<lparr>midi = m, velocity = v, time = t\<rparr> now s1))"

definition handleNoteOff :: "int \<Rightarrow> state \<Rightarrow> state" where
  "handleNoteOff m s =
     (if disposed s then s
      else case map_of (activeNotes s) m of
             None \<Rightarrow> s
           | Some existing \<Rightarrow>
               if pedalDown s
               then s\<lparr>activeNotes := AList.update m (existing\<lparr>sustained := True\<rparr>) (activeNotes s)\<rparr>
               else s\<lparr>activeNotes := AList.delete m (activeNotes s)\<rparr>)"

text \<open>
  Lines 176-178 iterate over the map and delete from it; an entry deleted during the
  iteration of a JavaScript Map is not visited again and the others all are.
\<close>

definition handleControlChange :: "int \<Rightarrow> int \<Rightarrow> state \<Rightarrow> state" where
  "handleControlChange controller val s =
     (if disposed s then s
      else if controller = 64
      then (let down = (val \<ge> 64) in
            if down \<and> \<not> pedalDown s then s\<lparr>pedalDown := True\<rparr>
            else if \<not> down \<and> pedalDown s
            then s\<lparr>pedalDown := False,
                   activeNotes := fold (\<lambda>(m, an) acc. if sustained an then AList.delete m acc else acc)
                                       (activeNotes s) (activeNotes s)\<rparr>
            else s)
      else s)"

subsection \<open>Adaptive split (lines 311-330)\<close>

text \<open>Lines 317-320: the rounded midpoint of the quartiles of the sorted history.\<close>

definition quartileCenter :: "int list \<Rightarrow> int" where
  "quartileCenter history =
     (let sorted = sort history;
          lowQuartile = sorted ! nat \<lfloor>real (length sorted) * (25 / 100)\<rfloor>;
          highQuartile = sorted ! nat \<lfloor>real (length sorted) * (75 / 100)\<rfloor>
      in js_round ((real_of_int lowQuartile + real_of_int highQuartile) / 2))"

text \<open>Line 329: \<open>splice(0, length - 128)\<close> keeps the last 128 entries.\<close>

definition decayHistory :: "state \<Rightarrow> state" where
  "decayHistory s =
     (if length (recentNoteOns s) > 128
      then s\<lparr>recentNoteOns := drop (length (recentNoteOns s) - 128) (recentNoteOns s)\<rparr>
      else s)"

text \<open>
  When a split subscriber throws, the exception leaves recomputeSplit before line 329.
\<close>

definition recomputeSplit :: "env \<Rightarrow> real \<Rightarrow> state \<Rightarrow> outcome \<times> state" where
  "recomputeSplit e now s =
     (if length (recentNoteOns s) < 8 then (Returned, s)
      else
       (let center = quartileCenter (recentNoteOns s)
        in if \<bar>center - splitPoint s\<bar> \<ge> splitShiftThreshold (cfg s)
           then (let newSplit = min (splitMax (cfg s)) (max (splitMin (cfg s)) center) in
                 if newSplit \<noteq> splitPoint s
                 then (case emitSplitChange e now (s\<lparr>splitPoint := newSplit\<rparr>) of
                         (Threw, s1) \<Rightarrow> (Threw, s1)
                       | (Returned, s1) \<Rightarrow> (Returned, decayHistory s1))
                 else (Returned, decayHistory s))
           else (Returned, decayHistory s)))"

subsection \<open>Construction, subscription, disposal (lines 117-143)\<close>

definition emptyBuffer :: BufferState where
  "emptyBuffer = \<lparr>bufNotes = [], firstTime = None, timer = None, lastEmissionTime = 0\<rparr>"

text \<open>
  The constructor takes the configuration already merged with \<open>DEFAULTS\<close>. The host's
  handles start at 1.
\<close>

definition construct :: "MidiInputManagerConfig \<Rightarrow> state" where
  "construct c =
     (let s0 = \<lparr> cfg = c, splitPoint = splitInitialMidi c,
                 chordCallbacks = [], splitCallbacks = [],
                 bufferL = emptyBuffer, bufferR = emptyBuffer,
                 activeNotes = [], pedalDown = False, recentNoteOns = [],
                 adaptTimer = None, disposed = False,
                 pendingTimeouts = [], pendingIntervals = [], nextHandle = 1,
                 emittedChords = [], deliveredChords = [],
                 emittedSplits = [], deliveredSplits = [], uncaught = 0 \<rparr>;
          (t, s1) = setInterval (splitAdaptIntervalMs c) s0
      in s1\<lparr>adaptTimer := Some t\<rparr>)"

definition onChord :: "nat \<Rightarrow> state \<Rightarrow> state" where
  "onChord cb s = (if cb \<in> set (chordCallbacks s) then s else s\<lparr>chordCallbacks := chordCallbacks s @ [cb]\<rparr>)"

definition offChord :: "nat \<Rightarrow> state \<Rightarrow> state" where
  "offChord cb s = s\<lparr>chordCallbacks := removeAll cb (chordCallbacks s)\<rparr>"

definition onSplitChange :: "nat \<Rightarrow> state \<Rightarrow> state" where
  "onSplitChange cb s = (if cb \<in> set (splitCallbacks s) then s else s\<lparr>splitCallbacks := splitCallbacks s @ [cb]\<rparr>)"

definition offSplitChange :: "nat \<Rightarrow> state \<Rightarrow> state" where
  "offSplitChange cb s = s\<lparr>splitCallbacks := removeAll cb (splitCallbacks s)\<rparr>"

definition getCurrentSplit :: "state \<Rightarrow> int" where
  "getCurrentSplit s = splitPoint s"

text \<open>\<open>dispose\<close> clears the timers in the host's table; the fields keep their handles.\<close>

definition dispose :: "state \<Rightarrow> state" where
  "dispose s =
     (let s1 = s\<lparr>disposed := True\<rparr>;
          s2 = (case timer (bufferL s1) of None \<Rightarrow> s1 | Some t \<Rightarrow> clearTimeout t s1);
          s3 = (case timer (bufferR s2) of None \<Rightarrow> s2 | Some t \<Rightarrow> clearTimeout t s2);
          s4 = (case adaptTimer s3 of None \<Rightarrow> s3 | Some t \<Rightarrow> clearInterval t s3)
      in s4\<lparr>chordCallbacks := [], splitCallbacks := []\<rparr>)"

section \<open>Runs of the manager\<close>

text \<open>
  What can happen to a manager: a call of an entry point or of the subscription
  interface by the embedding page, a timeout of the host firing, the interval of the
  host firing. A handle that is not in the host's table does not fire. \<open>NoteOn m v t now\<close>
  is \<open>handleNoteOn(m, v, t)\<close> called at clock reading \<open>now\<close>; for the default argument,
  \<open>t = now\<close>.
\<close>

datatype event =
    NoteOn int int real real
  | NoteOff int
  | ControlChange int int
  | OnChord nat
  | OffChord nat
  | OnSplitChange nat
  | OffSplitChange nat
  | Dispose
  | TimeoutFires nat real
  | IntervalFires nat real

definition caught :: "outcome \<times> state \<Rightarrow> state" where
  "caught r = (case r of (Returned, s) \<Rightarrow> s | (Threw, s) \<Rightarrow> s\<lparr>uncaught := uncaught s + 1\<rparr>)"

fun step :: "env \<Rightarrow> event \<Rightarrow> state \<Rightarrow> state" where
  "step e (NoteOn m v t now) s = caught (handleNoteOn e m v t now s)"
| "step e (NoteOff m) s = handleNoteOff m s"
| "step e (ControlChange c v) s = handleControlChange c v s"
| "step e (OnChord cb) s = onChord cb s"
| "step e (OffChord cb) s = offChord cb s"
| "step e (OnSplitChange cb) s = onSplitChange cb s"
| "step e (OffSplitChange cb) s = offSplitChange cb s"
| "step e Dispose s = dispose s"
| "step e (TimeoutFires t now) s =
     (case filter (\<lambda>p. fst p = t) (pendingTimeouts s) of
        [] \<Rightarrow> s
      | (_, h, _) # _ \<Rightarrow> caught (processBuffer e h now (clearTimeout t s)))"
| "step e (IntervalFires t now) s =
     (if t \<in> fst ` set (pendingIntervals s) then caught (recomputeSplit e now s) else s)"

definition exec :: "env \<Rightarrow> event list \<Rightarrow> state \<Rightarrow> state" where
  "exec e evs s = fold (step e) evs s"

section \<open>Frames and invariants\<close>

text \<open>
  \<open>bufferStep s s'\<close>: s' differs from s at most in the two buffers, the host's
  timeout table and handle counter, and the record of chord emissions. This is all that
  pushToBuffer and processBuffer touch.
\<close>

definition bufferStep :: "state \<Rightarrow> state \<Rightarrow> bool" where
  "bufferStep s s' \<longleftrightarrow>
     (\<exists>bl br pt nh ec dc. s' = s\<lparr>bufferL := bl, bufferR := br, pendingTimeouts := pt,
         nextHandle := nh, emittedChords := ec, deliveredChords := dc\<rparr>)"

text \<open>
  Every pending timeout of the host is the one its hand's buffer holds in \<open>timer\<close>, and
  that buffer has an open window; every pending interval is the one in \<open>adaptTimer\<close>.
  These hold in every state reached from the constructor: they are why \<open>dispose\<close>,
  which clears only the handles in the three fields, leaves nothing pending.
\<close>

definition timeoutsOwned :: "state \<Rightarrow> bool" where
  "timeoutsOwned s \<longleftrightarrow>
     (\<forall>p \<in> set (pendingTimeouts s).
        timer (getBuf (fst (snd p)) s) = Some (fst p) \<and> firstTime (getBuf (fst (snd p)) s) \<noteq> None)"

definition intervalsOwned :: "state \<Rightarrow> bool" where
  "intervalsOwned s \<longleftrightarrow> (\<forall>p \<in> set (pendingIntervals s). adaptTimer s = Some (fst p))"

text \<open>A disposed manager with no timer left, and what an observer has seen so far.\<close>

definition terminal :: "state \<Rightarrow> bool" where
  "terminal s \<longleftrightarrow> disposed s \<and> pendingTimeouts s = [] \<and> pendingIntervals s = []"

definition observations ::
  "state \<Rightarrow> ChordEvent list \<times> (nat \<times> ChordEvent) list \<times> SplitChangeEvent list
            \<times> (nat \<times> SplitChangeEvent) list \<times> nat" where
  "observations s = (emittedChords s, deliveredChords s, emittedSplits s, deliveredSplits s, uncaught s)"

text \<open>
  The median of a list of numbers as it is usually defined: the middle value of the
  sorted list when the length is odd, the mean of the two middle values when it is even.
  This is the notion the property on velocity blending speaks of; the method
  \<open>median\<close> of the class is compared with it below.
\<close>

definition trueMedian :: "int list \<Rightarrow> real" where
  "trueMedian xs =
     (if odd (length xs) then real_of_int (sort xs ! (length xs div 2))
      else (real_of_int (sort xs ! (length xs div 2 - 1)) + real_of_int (sort xs ! (length xs div 2))) / 2)"

section \<open>Example environments and runs\<close>

text \<open>
  An environment in which nothing throws and the chord-naming collaborator answers
  with two names, and the three note-ons of a C major triad within 10 ms.
\<close>

definition exampleEnv :: env where
  "exampleEnv = \<lparr>detect = (\<lambda>_. DetectNames [''Em#5/C'', ''CM'']),
                   chordThrows = (\<lambda>_ _. False), splitThrows = (\<lambda>_ _. False)\<rparr>"

definition triad :: "event list" where
  "triad = [NoteOn 60 100 1000 1000, NoteOn 64 90 1005 1005, NoteOn 67 95 1010 1010]"


text \<open>
  Runs for the split estimator: eight times middle C within 8 ms, and seven times the
  pitch 80 within 7 ms shortly before the tick at 2000 ms. \<open>splitRun\<close> is the run up to
  the moment before that tick.
\<close>

definition eightAtSixty :: "event list" where
  "eightAtSixty = [NoteOn 60 100 500 500, NoteOn 60 100 501 501, NoteOn 60 100 502 502,
                   NoteOn 60 100 503 503, NoteOn 60 100 504 504, NoteOn 60 100 505 505,
                   NoteOn 60 100 506 506, NoteOn 60 100 507 507]"

definition sevenAtEighty :: "event list" where
  "sevenAtEighty = [NoteOn 80 100 1990 1990, NoteOn 80 100 1991 1991, NoteOn 80 100 1992 1992,
                    NoteOn 80 100 1993 1993, NoteOn 80 100 1994 1994, NoteOn 80 100 1995 1995,
                    NoteOn 80 100 1996 1996]"

definition splitRun :: "event list" where
  "splitRun = eightAtSixty @ [IntervalFires 1 1000] @ sevenAtEighty"

text \<open>
  Environments in which the subscriber 1 throws, in which \<open>Chord.detect\<close> throws, and
  in which it returns null; and the event of the C major triad.
\<close>

definition brokenSubscriberEnv :: env where
  "brokenSubscriberEnv = \<lparr>detect = (\<lambda>_. DetectNames [''Em#5/C'', ''CM'']),
                           chordThrows = (\<lambda>cb _. cb = 1), splitThrows = (\<lambda>_ _. False)\<rparr>"

definition brokenDetectEnv :: env where
  "brokenDetectEnv = \<lparr>detect = (\<lambda>_. DetectThrows),
                       chordThrows = (\<lambda>_ _. False), splitThrows = (\<lambda>_ _. False)\<rparr>"

definition silentEnv :: env where
  "silentEnv = \<lparr>detect = (\<lambda>_. DetectNull),
                 chordThrows = (\<lambda>_ _. False), splitThrows = (\<lambda>_ _. False)\<rparr>"

definition exampleEvent :: ChordEvent where
  "exampleEvent = \<lparr> ce_hand = R, ce_name = Some ''CM'', inversion = Some 0, ce_notes = [60, 64, 67],
                     velocities = [98, 93, 95], role = Chord, ce_root = Some 60,
                     pitchClasses = [0, 4, 7], ce_timestamp = 1050, rawWindowMs = 50 \<rparr>"

text \<open>A configuration whose right-hand early-close count is 1.\<close>

definition eagerConfig :: MidiInputManagerConfig where
  "eagerConfig = DEFAULTS\<lparr>earlyCloseCountRight := 1\<rparr>"

text \<open>The triad with the first note arriving at clock reading 0.\<close>

definition zeroStartRun :: "event list" where
  "zeroStartRun = [NoteOn 60 100 0 0, NoteOn 64 90 5 5, NoteOn 67 95 10 10]"

text \<open>
  Two right-hand notes with velocities 100 and 91; an environment in which every split
  subscriber throws; and two states with a history of 130 pitches, set directly on a
  freshly constructed manager (the second with one split subscriber).
\<close>

definition dyad :: "event list" where
  "dyad = [NoteOn 60 100 1000 1000, NoteOn 64 91 1005 1005]"

definition brokenSplitEnv :: env where
  "brokenSplitEnv = \<lparr>detect = (\<lambda>_. DetectNames []),
                      chordThrows = (\<lambda>_ _. False), splitThrows = (\<lambda>_ _. True)\<rparr>"

definition longHistory :: state where
  "longHistory = (construct DEFAULTS)\<lparr>recentNoteOns := replicate 130 60\<rparr>"

definition longHighHistory :: state where
  "longHighHistory = (onSplitChange 1 (construct DEFAULTS))\<lparr>recentNoteOns := replicate 130 80\<rparr>"

section \<open>Basic facts\<close>

lemmas eval_defs = exec_def construct_def DEFAULTS_def setInterval_def handleNoteOn_def
  pushToBuffer_def getBuf_def putBuf_def setTimeout_def caught_def Let_def processBuffer_def
  composeEvent_def clearTimeout_def gatherNoteSet_def js_set_def js_rem_def median_def
  blendVelocity_def js_round_def classifyRole_def detectChord_def emitChord_def resetBuffer_def
  clearTimer_def emptyBuffer_def pcToNote_def handleNoteOff_def handleControlChange_def
  dispose_def clearInterval_def onChord_def offChord_def onSplitChange_def offSplitChange_def
  recomputeSplit_def emitSplitChange_def quartileCenter_def decayHistory_def

subsection \<open>The emission record of processBuffer\<close>

lemma getBuf_putBuf [simp]: "getBuf h (putBuf h' b s) = (if h = h' then b else getBuf h s)"
  by (cases h; cases h') (simp_all add: getBuf_def putBuf_def)

lemma emittedChords_putBuf [simp]: "emittedChords (putBuf h b s) = emittedChords s"
  by (simp add: putBuf_def)

lemma emittedChords_clearTimeout [simp]: "emittedChords (clearTimeout t s) = emittedChords s"
  by (simp add: clearTimeout_def)

lemma emittedChords_clearTimer [simp]: "emittedChords (clearTimer h s) = emittedChords s"
  by (simp add: clearTimer_def Let_def split: option.splits)

lemma emittedChords_resetBuffer [simp]: "emittedChords (resetBuffer h s) = emittedChords s"
  by (simp add: resetBuffer_def Let_def)

lemma emittedChords_emitChord [simp]: "emittedChords (snd (emitChord e evt s)) = emittedChords s @ [evt]"
  by (simp add: emitChord_def Let_def split: prod.splits)

lemma processBuffer_emittedChords:
  "emittedChords (snd (processBuffer e h now s)) =
     emittedChords s @
       (if firstTime (getBuf h s) = None \<or> firstTime (getBuf h s) = Some 0 \<or> bufNotes (getBuf h s) = [] then []
        else case composeEvent e h now s of Inl _ \<Rightarrow> [] | Inr ev \<Rightarrow> [ev])"
proof -
  have "emittedChords (snd (case emitChord e ev s of (Threw, s1) \<Rightarrow> (Threw, s1)
          | (Returned, s1) \<Rightarrow> (Returned, resetBuffer h s1))) = emittedChords s @ [ev]" for ev
    using emittedChords_emitChord [of e ev s]
    by (cases "emitChord e ev s") (auto split: outcome.splits)
  then show ?thesis
    by (simp add: processBuffer_def Let_def split: sum.splits)
qed

lemma processBuffer_emits_composed:
  assumes "emittedChords (snd (processBuffer e h now s)) = emittedChords s @ [ev]"
  shows "composeEvent e h now s = Inr ev"
    and "bufNotes (getBuf h s) \<noteq> []"
    and "\<exists>ft. firstTime (getBuf h s) = Some ft \<and> ft \<noteq> 0"
  using assms unfolding processBuffer_emittedChords
  by (auto split: if_splits sum.splits)

lemma blendVelocity_one: "blendVelocity original med 1 = med"
  by (simp add: blendVelocity_def js_round_def)

lemma blendVelocity_zero: "blendVelocity original med 0 = original"
  by (simp add: blendVelocity_def js_round_def)

lemma composeEvent_fields:
  assumes "composeEvent e h now s = Inr ev"
  shows "ce_hand ev = h"
    and "ce_notes ev = gatherNoteSet (cfg s) h (bufNotes (getBuf h s)) (activeNotes s)"
    and "pitchClasses ev = sort (js_set (map (\<lambda>n. js_rem n 12) (ce_notes ev)))"
    and "velocities ev = map (\<lambda>v. blendVelocity (velocity v) (median (map velocity (bufNotes (getBuf h s))))
            (if h = R then velocityBlendRight (cfg s) else velocityBlendLeft (cfg s))) (bufNotes (getBuf h s))"
    and "rawWindowMs ev = now - the (firstTime (getBuf h s))"
    and "role ev = classifyRole (cfg s) h (ce_notes ev) (pitchClasses ev) (rawWindowMs ev)"
    and "ce_timestamp ev = now"
  using assms by (auto simp: composeEvent_def Let_def split: sum.splits if_splits)

subsection \<open>Note sets and pitch classes\<close>

lemma set_js_set_aux:
  "set (fold (\<lambda>x acc. if x \<in> set acc then acc else acc @ [x]) xs acc) = set acc \<union> set xs"
  by (induction xs arbitrary: acc) auto

lemma distinct_js_set_aux:
  "distinct acc \<Longrightarrow> distinct (fold (\<lambda>x acc. if x \<in> set acc then acc else acc @ [x]) xs acc)"
  by (induction xs arbitrary: acc) auto

lemma length_js_set: "length (js_set xs) = card (set xs)"
proof -
  have "distinct (js_set xs)" "set (js_set xs) = set xs"
    by (simp_all add: js_set_def distinct_js_set_aux set_js_set_aux)
  then show ?thesis
    using distinct_card [of "js_set xs"] by simp
qed

lemma gather_fold_length:
  "length (fold (\<lambda>an acc. if P an \<and> midi an \<notin> set acc then acc @ [midi an] else acc) xs acc)
     = length acc + card (midi ` {an \<in> set xs. P an} - set acc)"
proof (induction xs arbitrary: acc)
  case Nil
  then show ?case by simp
next
  case (Cons a xs)
  let ?M = "midi ` {an \<in> set xs. P an}"
  show ?case
  proof (cases "P a \<and> midi a \<notin> set acc")
    case True
    have "midi ` {an \<in> set (a # xs). P an} - set acc = insert (midi a) (?M - set (acc @ [midi a]))"
      using True by auto
    moreover have "midi a \<notin> ?M - set (acc @ [midi a])" by simp
    moreover have "finite (?M - set (acc @ [midi a]))" by simp
    ultimately have "card (midi ` {an \<in> set (a # xs). P an} - set acc) = Suc (card (?M - set (acc @ [midi a])))"
      using card_insert_disjoint [of "?M - set (acc @ [midi a])" "midi a"] by presburger
    with True Cons.IH [of "acc @ [midi a]"] show ?thesis by simp
  next
    case False
    then have "midi ` {an \<in> set (a # xs). P an} - set acc = ?M - set acc"
      by auto
    with False Cons.IH [of acc] show ?thesis by auto
  qed
qed

lemma length_gatherNoteSet:
  "length (gatherNoteSet c h bnotes actives) =
     length bnotes +
       (if sustainIncludesBuffer c
        then card (midi ` {an \<in> snd ` set actives. hand an = h \<and> sustained an} - midi ` set bnotes)
        else 0)"
  using gather_fold_length [of "\<lambda>an. hand an = h \<and> sustained an" "map snd actives" "map midi bnotes"]
  by (simp add: gatherNoteSet_def Let_def)


subsection \<open>What the buffer operations leave alone\<close>

lemma bufferStep_refl [simp]: "bufferStep s s"
  unfolding bufferStep_def
  by (rule exI [of _ "bufferL s"], rule exI [of _ "bufferR s"], rule exI [of _ "pendingTimeouts s"],
      rule exI [of _ "nextHandle s"], rule exI [of _ "emittedChords s"], rule exI [of _ "deliveredChords s"]) simp

lemma bufferStep_trans: "bufferStep s s' \<Longrightarrow> bufferStep s' s'' \<Longrightarrow> bufferStep s s''"
  unfolding bufferStep_def by (elim exE) (simp, blast)

lemma bufferStep_frame:
  assumes "bufferStep s s'"
  shows "cfg s' = cfg s" "splitPoint s' = splitPoint s" "chordCallbacks s' = chordCallbacks s"
    "splitCallbacks s' = splitCallbacks s" "activeNotes s' = activeNotes s" "pedalDown s' = pedalDown s"
    "recentNoteOns s' = recentNoteOns s" "adaptTimer s' = adaptTimer s" "disposed s' = disposed s"
    "pendingIntervals s' = pendingIntervals s" "emittedSplits s' = emittedSplits s"
    "deliveredSplits s' = deliveredSplits s" "uncaught s' = uncaught s"
  using assms unfolding bufferStep_def by auto

lemma bufferStep_putBuf [simp]: "bufferStep s (putBuf h b s)"
  unfolding bufferStep_def putBuf_def
  by (rule exI [of _ "if h = L then b else bufferL s"], rule exI [of _ "if h = L then bufferR s else b"],
      rule exI [of _ "pendingTimeouts s"],
      rule exI [of _ "nextHandle s"], rule exI [of _ "emittedChords s"], rule exI [of _ "deliveredChords s"]) simp

lemma bufferStep_clearTimeout [simp]: "bufferStep s (clearTimeout t s)"
  unfolding bufferStep_def clearTimeout_def
  by (rule exI [of _ "bufferL s"], rule exI [of _ "bufferR s"],
      rule exI [of _ "filter (\<lambda>p. fst p \<noteq> t) (pendingTimeouts s)"],
      rule exI [of _ "nextHandle s"], rule exI [of _ "emittedChords s"], rule exI [of _ "deliveredChords s"]) simp

lemma bufferStep_setTimeout [simp]: "bufferStep s (snd (setTimeout h d s))"
  unfolding bufferStep_def setTimeout_def
  by (rule exI [of _ "bufferL s"], rule exI [of _ "bufferR s"],
      rule exI [of _ "pendingTimeouts s @ [(nextHandle s, h, d)]"],
      rule exI [of _ "nextHandle s + 1"], rule exI [of _ "emittedChords s"], rule exI [of _ "deliveredChords s"]) simp

lemma bufferStep_clearTimer [simp]: "bufferStep s (clearTimer h s)"
  unfolding clearTimer_def Let_def
  by (cases "timer (getBuf h s)") (auto intro: bufferStep_trans [OF bufferStep_clearTimeout bufferStep_putBuf])

lemma bufferStep_resetBuffer [simp]: "bufferStep s (resetBuffer h s)"
  unfolding resetBuffer_def Let_def
  by (rule bufferStep_trans [OF bufferStep_clearTimer bufferStep_putBuf])

lemma bufferStep_emitChord [simp]: "bufferStep s (snd (emitChord e evt s))"
  unfolding bufferStep_def emitChord_def Let_def
  by (cases "invokeAll (chordThrows e) (chordCallbacks s) evt")
     (simp, rule exI [of _ "bufferL s"], rule exI [of _ "bufferR s"], rule exI [of _ "pendingTimeouts s"],
      rule exI [of _ "nextHandle s"], simp, blast)

lemma bufferStep_processBuffer [simp]: "bufferStep s (snd (processBuffer e h now s))"
proof -
  have "bufferStep s (snd (case emitChord e ev s of (Threw, s1) \<Rightarrow> (Threw, s1)
          | (Returned, s1) \<Rightarrow> (Returned, resetBuffer h s1)))" for ev
    using bufferStep_emitChord [of s e ev]
    by (cases "emitChord e ev s")
       (auto split: outcome.splits intro: bufferStep_trans [OF _ bufferStep_resetBuffer])
  then show ?thesis
    by (simp add: processBuffer_def Let_def split: sum.splits)
qed

lemma bufferStep_pushToBuffer [simp]: "bufferStep s (snd (pushToBuffer e h note now s))"
proof (cases "firstTime (getBuf h s)")
  case None
  have "bufferStep s (putBuf h b' (snd (setTimeout h d (putBuf h b s))))" for b b' d
    by (rule bufferStep_trans [OF bufferStep_putBuf bufferStep_trans [OF bufferStep_setTimeout bufferStep_putBuf]])
  with None show ?thesis
    by (simp add: pushToBuffer_def Let_def case_prod_unfold)
next
  case (Some ft)
  have a: "bufferStep s (snd (processBuffer e h now (clearTimer h (putBuf h b s))))" for b
    by (rule bufferStep_trans [OF bufferStep_putBuf bufferStep_trans [OF bufferStep_clearTimer bufferStep_processBuffer]])
  have b: "bufferStep s (putBuf h b' (snd (setTimeout h d (clearTimer h (putBuf h b s)))))" for b b' d
    by (rule bufferStep_trans [OF bufferStep_putBuf bufferStep_trans [OF bufferStep_clearTimer
          bufferStep_trans [OF bufferStep_setTimeout bufferStep_putBuf]]])
  from Some a b show ?thesis
    by (simp add: pushToBuffer_def Let_def case_prod_unfold del: getBuf_putBuf)
qed

lemma bufferStep_caught_activeNotes:
  "bufferStep s (snd r) \<Longrightarrow> activeNotes (caught r) = activeNotes s"
  by (cases r) (auto simp: caught_def bufferStep_frame split: outcome.splits)

lemma activeNotes_decayHistory [simp]: "activeNotes (decayHistory s) = activeNotes s"
  by (simp add: decayHistory_def)

lemma activeNotes_emitSplitChange [simp]: "activeNotes (snd (emitSplitChange e now s)) = activeNotes s"
  by (simp add: emitSplitChange_def Let_def case_prod_unfold)

lemma activeNotes_recomputeSplit [simp]: "activeNotes (snd (recomputeSplit e now s)) = activeNotes s"
proof -
  have "activeNotes (snd (case emitSplitChange e now s' of (Threw, s1) \<Rightarrow> (Threw, s1)
          | (Returned, s1) \<Rightarrow> (Returned, decayHistory s1))) = activeNotes s'" for s'
    using activeNotes_emitSplitChange [of e now s']
    by (cases "emitSplitChange e now s'") (auto split: outcome.splits)
  then show ?thesis
    by (simp add: recomputeSplit_def Let_def)
qed

lemma activeNotes_caught: "activeNotes (caught r) = activeNotes (snd r)"
  by (cases r) (simp add: caught_def split: outcome.splits)

subsection \<open>The active-note map has distinct keys\<close>

lemma distinct_release:
  "distinct (map fst acc) \<Longrightarrow>
   distinct (map fst (fold (\<lambda>(m, an) acc. if sustained an then AList.delete m acc else acc) xs acc))"
  by (induction xs arbitrary: acc) (auto simp: distinct_delete split: prod.splits)

lemma distinct_activeNotes_step:
  "distinct (map fst (activeNotes s)) \<Longrightarrow> distinct (map fst (activeNotes (step e ev s)))"
proof (cases ev)
  case (NoteOn m v t now)
  assume "distinct (map fst (activeNotes s))"
  then show ?thesis
    unfolding NoteOn
    by (simp add: handleNoteOn_def Let_def activeNotes_caught bufferStep_frame(5) [OF bufferStep_pushToBuffer] distinct_update)
next
  case (NoteOff m)
  assume "distinct (map fst (activeNotes s))"
  then show ?thesis
    unfolding NoteOff by (simp add: handleNoteOff_def distinct_update distinct_delete split: option.splits)
next
  case (ControlChange c v)
  assume "distinct (map fst (activeNotes s))"
  then show ?thesis
    unfolding ControlChange by (simp add: handleControlChange_def Let_def distinct_release)
next
  case (TimeoutFires t now)
  assume "distinct (map fst (activeNotes s))"
  then show ?thesis
    unfolding TimeoutFires
    by (simp add: activeNotes_caught bufferStep_frame(5) [OF bufferStep_processBuffer]
          bufferStep_frame(5) [OF bufferStep_clearTimeout] split: list.splits prod.splits)
next
  case (IntervalFires t now)
  assume "distinct (map fst (activeNotes s))"
  then show ?thesis
    unfolding IntervalFires by (simp add: activeNotes_caught)
qed (simp_all add: onChord_def offChord_def onSplitChange_def offSplitChange_def dispose_def
      clearTimeout_def clearInterval_def Let_def split: option.splits)

lemma distinct_activeNotes_fold:
  "distinct (map fst (activeNotes s)) \<Longrightarrow> distinct (map fst (activeNotes (fold (step e) evs s)))"
  by (induction evs arbitrary: s) (simp_all add: distinct_activeNotes_step)

lemma distinct_activeNotes_reachable:
  "distinct (map fst (activeNotes (exec e evs (construct c))))"
  unfolding exec_def
  by (rule distinct_activeNotes_fold) (simp add: construct_def setInterval_def Let_def)

lemma release_by_key:
  "fold (\<lambda>(m, an) acc. if sustained an then AList.delete m acc else acc) xs acc
     = filter (\<lambda>p. fst p \<notin> fst ` {q \<in> set xs. sustained (snd q)}) acc"
proof (induction xs arbitrary: acc)
  case Nil
  then show ?case by simp
next
  case (Cons x xs)
  obtain m an where x: "x = (m, an)" by (cases x)
  show ?case
  proof (cases "sustained an")
    case False
    have "fst ` {q \<in> set (x # xs). sustained (snd q)} = fst ` {q \<in> set xs. sustained (snd q)}"
      using False x by auto
    with False x Cons.IH [of acc] show ?thesis by simp
  next
    case True
    have k: "fst ` {q \<in> set (x # xs). sustained (snd q)} = insert m (fst ` {q \<in> set xs. sustained (snd q)})"
      using True x by force
    have "fold (\<lambda>(m, an) acc. if sustained an then AList.delete m acc else acc) (x # xs) acc
        = filter (\<lambda>p. m \<noteq> fst p \<and> fst p \<notin> fst ` {q \<in> set xs. sustained (snd q)}) acc"
      using True x Cons.IH [of "AList.delete m acc"] by (simp add: AList.delete_eq case_prod_unfold)
    also have "\<dots> = filter (\<lambda>p. fst p \<notin> insert m (fst ` {q \<in> set xs. sustained (snd q)})) acc"
      by (rule filter_cong) auto
    finally show ?thesis unfolding k .
  qed
qed

lemma release_filter:
  assumes "distinct (map fst xs)"
  shows "fold (\<lambda>(m, an) acc. if sustained an then AList.delete m acc else acc) xs xs
     = filter (\<lambda>p. \<not> sustained (snd p)) xs"
proof -
  have "(fst p \<notin> fst ` {q \<in> set xs. sustained (snd q)}) = (\<not> sustained (snd p))" if "p \<in> set xs" for p
  proof
    assume "fst p \<notin> fst ` {q \<in> set xs. sustained (snd q)}"
    with that show "\<not> sustained (snd p)" by blast
  next
    assume ns: "\<not> sustained (snd p)"
    show "fst p \<notin> fst ` {q \<in> set xs. sustained (snd q)}"
    proof
      assume "fst p \<in> fst ` {q \<in> set xs. sustained (snd q)}"
      then obtain q where q: "q \<in> set xs" "sustained (snd q)" "fst q = fst p" by auto
      from assms q(1) that q(3) have "q = p"
        using eq_key_imp_eq_value [of xs "fst p" "snd q" "snd p"] by (cases p; cases q) simp
      with q(2) ns show False by simp
    qed
  qed
  then show ?thesis
    unfolding release_by_key by (intro filter_cong) simp_all
qed

subsection \<open>The method median and the median\<close>

lemma median_trueMedian:
  assumes "values \<noteq> []"
  shows "median values = \<lfloor>trueMedian values + 1 / 2\<rfloor>"
proof (cases "odd (length values)")
  case True
  then have "length values mod 2 \<noteq> 0" by presburger
  with assms True show ?thesis
    by (simp add: median_def trueMedian_def Let_def)
next
  case False
  then have "length values mod 2 = 0" by presburger
  with assms False show ?thesis
    by (simp add: median_def trueMedian_def Let_def js_round_def)
qed

lemma round_half_up_close: "\<bar>real_of_int \<lfloor>x + 1 / 2\<rfloor> - x\<bar> \<le> 1 / 2"
  by linarith

lemma count_filter_sort: "length (filter P (sort xs)) = length (filter P xs)"
  by (simp add: filter_sort)

lemma sorted_count_le:
  assumes "sorted ys" and "k < length ys"
  shows "k + 1 \<le> length (filter (\<lambda>x. x \<le> (ys ! k :: int)) ys)"
proof -
  have "\<forall>x \<in> set (take (k + 1) ys). x \<le> ys ! k"
  proof
    fix x assume "x \<in> set (take (k + 1) ys)"
    then obtain i where "i < k + 1" "i < length ys" "x = ys ! i"
      by (auto simp: in_set_conv_nth)
    with assms show "x \<le> ys ! k"
      by (simp add: sorted_nth_mono)
  qed
  then have "filter (\<lambda>x. x \<le> ys ! k) (take (k + 1) ys) = take (k + 1) ys"
    by (simp only: filter_True)
  moreover have "filter (\<lambda>x. x \<le> ys ! k) ys
      = filter (\<lambda>x. x \<le> ys ! k) (take (k + 1) ys) @ filter (\<lambda>x. x \<le> ys ! k) (drop (k + 1) ys)"
    by (simp only: filter_append [symmetric] append_take_drop_id)
  ultimately have "length (filter (\<lambda>x. x \<le> ys ! k) ys) \<ge> length (take (k + 1) ys)"
    by simp
  with assms(2) show ?thesis by simp
qed

lemma sorted_count_ge:
  assumes "sorted ys" and "k < length ys"
  shows "length ys - k \<le> length (filter (\<lambda>x. (ys ! k :: int) \<le> x) ys)"
proof -
  have "\<forall>x \<in> set (drop k ys). ys ! k \<le> x"
  proof
    fix x assume "x \<in> set (drop k ys)"
    then obtain i where "i < length ys - k" "x = ys ! (k + i)"
      by (auto simp: in_set_conv_nth)
    with assms show "ys ! k \<le> x"
      by (simp add: sorted_nth_mono)
  qed
  then have "filter (\<lambda>x. ys ! k \<le> x) (drop k ys) = drop k ys"
    by (simp only: filter_True)
  moreover have "filter (\<lambda>x. ys ! k \<le> x) ys
      = filter (\<lambda>x. ys ! k \<le> x) (take k ys) @ filter (\<lambda>x. ys ! k \<le> x) (drop k ys)"
    by (simp only: filter_append [symmetric] append_take_drop_id)
  ultimately have "length (filter (\<lambda>x. ys ! k \<le> x) ys) \<ge> length (drop k ys)"
    by simp
  then show ?thesis by simp
qed

lemma count_mono:
  "(\<And>x. P x \<Longrightarrow> Q x) \<Longrightarrow> length (filter P xs) \<le> length (filter Q xs)"
  by (induction xs) auto

lemma midpoint_between:
  fixes a b :: int
  assumes "a \<le> b"
  shows "a \<le> \<lfloor>(real_of_int a + real_of_int b) / 2 + 1 / 2\<rfloor>"
    and "\<lfloor>(real_of_int a + real_of_int b) / 2 + 1 / 2\<rfloor> \<le> b"
proof -
  have r: "real_of_int a \<le> real_of_int b" using assms by simp
  have "real_of_int a \<le> (real_of_int a + real_of_int b) / 2 + 1 / 2"
    using r by argo
  then show "a \<le> \<lfloor>(real_of_int a + real_of_int b) / 2 + 1 / 2\<rfloor>"
    by (simp only: le_floor_iff)
  have "(real_of_int a + real_of_int b) / 2 + 1 / 2 < real_of_int b + 1"
    using r by argo
  then show "\<lfloor>(real_of_int a + real_of_int b) / 2 + 1 / 2\<rfloor> \<le> b"
    by (simp only: floor_le_iff)
qed

lemma median_halves:
  assumes "values \<noteq> []"
  shows "length values \<le> 2 * length (filter (\<lambda>x. x \<le> median values) values)
       \<and> length values \<le> 2 * length (filter (\<lambda>x. median values \<le> x) values)"
proof (cases "odd (length values)")
  let ?ys = "sort values" and ?n = "length values"
  have n: "0 < ?n" using assms by simp
  have srt: "sorted ?ys" by simp
  {
    case True
    then have "?n mod 2 \<noteq> 0" by presburger
    then have m: "median values = ?ys ! (?n div 2)"
      using assms by (simp add: median_def Let_def)
    have k: "?n div 2 < length ?ys" using n by simp
    from sorted_count_le [OF srt k] sorted_count_ge [OF srt k]
    have "?n div 2 + 1 \<le> length (filter (\<lambda>x. x \<le> median values) values)"
      "?n - ?n div 2 \<le> length (filter (\<lambda>x. median values \<le> x) values)"
      unfolding m count_filter_sort by simp_all
    then show ?thesis
      by linarith
  next
    case False
    then have ev: "?n mod 2 = 0" by presburger
    let ?a = "?ys ! (?n div 2 - 1)" and ?b = "?ys ! (?n div 2)"
    have n2: "2 \<le> ?n" using n False by presburger
    have ka: "?n div 2 - 1 < length ?ys" and kb: "?n div 2 < length ?ys"
      using n2 by simp_all
    have ab: "?a \<le> ?b"
      using srt kb by (simp add: sorted_nth_mono)
    have m: "median values = \<lfloor>(real_of_int ?a + real_of_int ?b) / 2 + 1 / 2\<rfloor>"
      using assms ev by (simp add: median_def Let_def js_round_def)
    have lo: "?a \<le> median values" and hi: "median values \<le> ?b"
      unfolding m using midpoint_between [OF ab] by simp_all
    have "?n div 2 - 1 + 1 \<le> length (filter (\<lambda>x. x \<le> ?a) values)"
      using sorted_count_le [OF srt ka] unfolding count_filter_sort .
    also have "\<dots> \<le> length (filter (\<lambda>x. x \<le> median values) values)"
      using lo by (intro count_mono) simp
    finally have 1: "?n \<le> 2 * length (filter (\<lambda>x. x \<le> median values) values)"
      using n2 ev by presburger
    have "?n - ?n div 2 \<le> length (filter (\<lambda>x. ?b \<le> x) values)"
      using sorted_count_ge [OF srt kb] unfolding count_filter_sort by simp
    also have "\<dots> \<le> length (filter (\<lambda>x. median values \<le> x) values)"
      using hi by (intro count_mono) simp
    finally have 2: "?n \<le> 2 * length (filter (\<lambda>x. median values \<le> x) values)"
      using ev by presburger
    from 1 2 show ?thesis by simp
  }
qed

subsection \<open>The split estimator\<close>

lemma quartile_indices:
  "nat \<lfloor>real n * (25 / 100)\<rfloor> = n div 4" "nat \<lfloor>real n * (75 / 100)\<rfloor> = 3 * n div 4"
proof -
  have "real n * (25 / 100) = real n / real 4" by simp
  then have "\<lfloor>real n * (25 / 100)\<rfloor> = int (n div 4)"
    by (simp only: floor_divide_of_nat_eq)
  then show "nat \<lfloor>real n * (25 / 100)\<rfloor> = n div 4" by simp
  have "real n * (75 / 100) = real (3 * n) / real 4" by simp
  then have "\<lfloor>real n * (75 / 100)\<rfloor> = int (3 * n div 4)"
    by (simp only: floor_divide_of_nat_eq)
  then show "nat \<lfloor>real n * (75 / 100)\<rfloor> = 3 * n div 4" by simp
qed

lemma quartileCenter_eq:
  "quartileCenter history =
     js_round ((real_of_int (sort history ! (length history div 4))
              + real_of_int (sort history ! (3 * length history div 4))) / 2)"
  by (simp only: quartileCenter_def Let_def length_sort quartile_indices)

lemma emitSplitChange_effect:
  "splitPoint (snd (emitSplitChange e now s)) = splitPoint s"
  "emittedSplits (snd (emitSplitChange e now s)) = emittedSplits s @ [\<lparr>splitMidi = splitPoint s, sc_timestamp = now\<rparr>]"
  by (simp_all add: emitSplitChange_def Let_def case_prod_unfold)

lemma decayHistory_frame [simp]:
  "splitPoint (decayHistory s) = splitPoint s" "emittedSplits (decayHistory s) = emittedSplits s"
  by (simp_all add: decayHistory_def)

lemma recomputeSplit_cases:
  "splitPoint (snd (recomputeSplit e now s)) =
     (if 8 \<le> length (recentNoteOns s)
         \<and> splitShiftThreshold (cfg s) \<le> \<bar>quartileCenter (recentNoteOns s) - splitPoint s\<bar>
      then min (splitMax (cfg s)) (max (splitMin (cfg s)) (quartileCenter (recentNoteOns s)))
      else splitPoint s)"
  "emittedSplits (snd (recomputeSplit e now s)) =
     emittedSplits s @
     (if 8 \<le> length (recentNoteOns s)
         \<and> splitShiftThreshold (cfg s) \<le> \<bar>quartileCenter (recentNoteOns s) - splitPoint s\<bar>
         \<and> min (splitMax (cfg s)) (max (splitMin (cfg s)) (quartileCenter (recentNoteOns s))) \<noteq> splitPoint s
      then [\<lparr>splitMidi = min (splitMax (cfg s)) (max (splitMin (cfg s)) (quartileCenter (recentNoteOns s))),
             sc_timestamp = now\<rparr>]
      else [])"
proof -
  have sp: "splitPoint (snd (case emitSplitChange e now s' of (Threw, s1) \<Rightarrow> (Threw, s1)
          | (Returned, s1) \<Rightarrow> (Returned, decayHistory s1))) = splitPoint s'" for s'
    using emitSplitChange_effect(1) [of e now s']
    by (cases "emitSplitChange e now s'") (auto split: outcome.splits)
  have es: "emittedSplits (snd (case emitSplitChange e now s' of (Threw, s1) \<Rightarrow> (Threw, s1)
          | (Returned, s1) \<Rightarrow> (Returned, decayHistory s1)))
        = emittedSplits s' @ [\<lparr>splitMidi = splitPoint s', sc_timestamp = now\<rparr>]" for s'
    using emitSplitChange_effect(2) [of e now s']
    by (cases "emitSplitChange e now s'") (auto split: outcome.splits)
  show "splitPoint (snd (recomputeSplit e now s)) =
     (if 8 \<le> length (recentNoteOns s)
         \<and> splitShiftThreshold (cfg s) \<le> \<bar>quartileCenter (recentNoteOns s) - splitPoint s\<bar>
      then min (splitMax (cfg s)) (max (splitMin (cfg s)) (quartileCenter (recentNoteOns s)))
      else splitPoint s)"
    by (simp add: recomputeSplit_def Let_def sp)
  show "emittedSplits (snd (recomputeSplit e now s)) =
     emittedSplits s @
     (if 8 \<le> length (recentNoteOns s)
         \<and> splitShiftThreshold (cfg s) \<le> \<bar>quartileCenter (recentNoteOns s) - splitPoint s\<bar>
         \<and> min (splitMax (cfg s)) (max (splitMin (cfg s)) (quartileCenter (recentNoteOns s))) \<noteq> splitPoint s
      then [\<lparr>splitMidi = min (splitMax (cfg s)) (max (splitMin (cfg s)) (quartileCenter (recentNoteOns s))),
             sc_timestamp = now\<rparr>]
      else [])"
    by (simp add: recomputeSplit_def Let_def es)
qed

lemma invokeAll_outcome:
  "snd (invokeAll throws cbs evt) = Threw \<longleftrightarrow> (\<exists>cb \<in> set cbs. throws cb evt)"
  by (induction cbs) (auto simp: case_prod_unfold Let_def)

lemma emitSplitChange_outcome:
  "fst (emitSplitChange e now s) = Threw \<longleftrightarrow>
     (\<exists>cb \<in> set (splitCallbacks s). splitThrows e cb \<lparr>splitMidi = splitPoint s, sc_timestamp = now\<rparr>)"
  "recentNoteOns (snd (emitSplitChange e now s)) = recentNoteOns s"
  by (simp_all add: emitSplitChange_def Let_def case_prod_unfold invokeAll_outcome)

lemma recentNoteOns_decayHistory:
  "recentNoteOns (decayHistory s) = drop (length (recentNoteOns s) - 128) (recentNoteOns s)"
  by (simp add: decayHistory_def)

lemma recomputeSplit_history:
  "recentNoteOns (snd (recomputeSplit e now s)) =
     (if fst (recomputeSplit e now s) = Threw then recentNoteOns s
      else drop (length (recentNoteOns s) - 128) (recentNoteOns s))"
proof -
  have k: "recentNoteOns (snd (case emitSplitChange e now s' of (Threw, s1) \<Rightarrow> (Threw, s1)
               | (Returned, s1) \<Rightarrow> (Returned, decayHistory s1)))
         = (if fst (case emitSplitChange e now s' of (Threw, s1) \<Rightarrow> (Threw, s1)
               | (Returned, s1) \<Rightarrow> (Returned, decayHistory s1)) = Threw then recentNoteOns s'
            else drop (length (recentNoteOns s') - 128) (recentNoteOns s'))" for s'
    using emitSplitChange_outcome(2) [of e now s']
    by (cases "emitSplitChange e now s'") (auto simp: recentNoteOns_decayHistory split: outcome.splits)
  show ?thesis
    using k [of "s\<lparr>splitPoint := min (splitMax (cfg s)) (max (splitMin (cfg s)) (quartileCenter (recentNoteOns s)))\<rparr>"]
    by (simp add: recomputeSplit_def Let_def recentNoteOns_decayHistory)
qed

lemma recomputeSplit_outcome:
  "fst (recomputeSplit e now s) = Threw \<longleftrightarrow>
     splitPoint (snd (recomputeSplit e now s)) \<noteq> splitPoint s
     \<and> (\<exists>cb \<in> set (splitCallbacks s).
           splitThrows e cb \<lparr>splitMidi = splitPoint (snd (recomputeSplit e now s)), sc_timestamp = now\<rparr>)"
proof -
  have k: "fst (case emitSplitChange e now s' of (Threw, s1) \<Rightarrow> (Threw, s1)
               | (Returned, s1) \<Rightarrow> (Returned, decayHistory s1)) = Threw \<longleftrightarrow>
           (\<exists>cb \<in> set (splitCallbacks s'). splitThrows e cb \<lparr>splitMidi = splitPoint s', sc_timestamp = now\<rparr>)" for s'
    using emitSplitChange_outcome(1) [of e now s']
    by (cases "emitSplitChange e now s'") (auto split: outcome.splits)
  show ?thesis
    unfolding recomputeSplit_cases(1)
    using k [of "s\<lparr>splitPoint := min (splitMax (cfg s)) (max (splitMin (cfg s)) (quartileCenter (recentNoteOns s)))\<rparr>"]
    by (simp add: recomputeSplit_def Let_def)
qed

subsection \<open>Callbacks and the collaborator\<close>

lemma invokeAll_quiet:
  "\<forall>cb \<in> set cbs. \<not> throws cb evt \<Longrightarrow> invokeAll throws cbs evt = (cbs, Returned)"
  by (induction cbs) simp_all

lemma invokeAll_thrower:
  "\<forall>b \<in> set before. \<not> throws b evt \<Longrightarrow> throws cb evt \<Longrightarrow>
   invokeAll throws (before @ cb # after) evt = (before @ [cb], Threw)"
  by (induction before) simp_all

lemma detectChord_cases:
  "detect e (map pcToNote pcs) = DetectThrows \<Longrightarrow> detectChord e pcs = Inl ()"
  "detect e (map pcToNote pcs) = DetectNull \<Longrightarrow> detectChord e pcs = Inr None"
  "detect e (map pcToNote pcs) = DetectNames [] \<Longrightarrow> detectChord e pcs = Inr None"
  "detect e (map pcToNote pcs) = DetectNames (d # ds) \<Longrightarrow>
     detectChord e pcs = Inr (Some (hd (sort_key length (d # ds))))"
  by (simp_all add: detectChord_def)

subsection \<open>Ownership of timers\<close>

lemma pendingTimeouts_putBuf [simp]: "pendingTimeouts (putBuf h b s) = pendingTimeouts s"
  by (simp add: putBuf_def)

lemma clearTimeout_simps [simp]:
  "pendingTimeouts (clearTimeout t s) = filter (\<lambda>p. fst p \<noteq> t) (pendingTimeouts s)"
  "getBuf h (clearTimeout t s) = getBuf h s"
  by (simp_all add: clearTimeout_def getBuf_def)

lemma setTimeout_simps [simp]:
  "fst (setTimeout h d s) = nextHandle s"
  "pendingTimeouts (snd (setTimeout h d s)) = pendingTimeouts s @ [(nextHandle s, h, d)]"
  "getBuf h' (snd (setTimeout h d s)) = getBuf h' s"
  by (simp_all add: setTimeout_def getBuf_def)

lemma emitChord_simps [simp]:
  "pendingTimeouts (snd (emitChord e ev s)) = pendingTimeouts s"
  "getBuf h (snd (emitChord e ev s)) = getBuf h s"
  by (simp_all add: emitChord_def Let_def case_prod_unfold getBuf_def)

lemma timeoutsOwned_cong:
  "pendingTimeouts s' = pendingTimeouts s \<Longrightarrow> (\<And>h. getBuf h s' = getBuf h s) \<Longrightarrow>
   timeoutsOwned s' = timeoutsOwned s"
  by (simp add: timeoutsOwned_def)

lemma timeoutsOwned_clearTimeout: "timeoutsOwned s \<Longrightarrow> timeoutsOwned (clearTimeout t s)"
  by (simp add: timeoutsOwned_def)

lemma clearTimer_simps:
  "getBuf h' (clearTimer h s) = (if h' = h then (getBuf h s)\<lparr>timer := None\<rparr> else getBuf h' s)"
  "pendingTimeouts (clearTimer h s) =
     (case timer (getBuf h s) of None \<Rightarrow> pendingTimeouts s
      | Some t \<Rightarrow> filter (\<lambda>p. fst p \<noteq> t) (pendingTimeouts s))"
  by (simp_all add: clearTimer_def Let_def split: option.splits)

lemma clearTimer_owned:
  assumes "timeoutsOwned s"
  shows "timeoutsOwned (clearTimer h s)"
    and "\<forall>p \<in> set (pendingTimeouts (clearTimer h s)). fst (snd p) \<noteq> h"
  using assms
  by (auto simp: timeoutsOwned_def clearTimer_simps split: option.splits)

lemma resetBuffer_simps:
  "getBuf h' (resetBuffer h s) =
     (if h' = h then (getBuf h s)\<lparr>timer := None, bufNotes := [], firstTime := None\<rparr> else getBuf h' s)"
  "pendingTimeouts (resetBuffer h s) = pendingTimeouts (clearTimer h s)"
  by (simp_all add: resetBuffer_def Let_def clearTimer_simps)

lemma resetBuffer_owned:
  assumes "timeoutsOwned s"
  shows "timeoutsOwned (resetBuffer h s)"
  using clearTimer_owned [OF assms, of h]
  by (auto simp: timeoutsOwned_def resetBuffer_simps clearTimer_simps split: if_splits)

lemma processBuffer_owned:
  assumes "timeoutsOwned s"
  shows "timeoutsOwned (snd (processBuffer e h now s))"
proof -
  have em: "timeoutsOwned (snd (emitChord e ev s))" for ev
    using assms by (simp add: timeoutsOwned_cong [of "snd (emitChord e ev s)" s])
  have "timeoutsOwned (snd (case emitChord e ev s of (Threw, s1) \<Rightarrow> (Threw, s1)
          | (Returned, s1) \<Rightarrow> (Returned, resetBuffer h s1)))" for ev
    using em [of ev] resetBuffer_owned [of "snd (emitChord e ev s)" h]
    by (cases "emitChord e ev s") (auto split: outcome.splits)
  with assms show ?thesis
    by (simp add: processBuffer_def Let_def resetBuffer_owned split: sum.splits)
qed

lemma schedule_owned:
  assumes "timeoutsOwned s" and "\<forall>p \<in> set (pendingTimeouts s). fst (snd p) \<noteq> h"
    and "firstTime b \<noteq> None"
  shows "timeoutsOwned (putBuf h (b\<lparr>timer := Some (fst (setTimeout h d s))\<rparr>) (snd (setTimeout h d s)))"
  using assms by (auto simp: timeoutsOwned_def)

lemma putBuf_owned_same:
  assumes "timeoutsOwned s" and "timer b = timer (getBuf h s)" and "firstTime b = firstTime (getBuf h s)"
  shows "timeoutsOwned (putBuf h b s)"
  using assms by (auto simp: timeoutsOwned_def)

lemma putBuf_owned_free:
  assumes "timeoutsOwned s" and "\<forall>p \<in> set (pendingTimeouts s). fst (snd p) \<noteq> h"
  shows "timeoutsOwned (putBuf h b s)"
    and "\<forall>p \<in> set (pendingTimeouts (putBuf h b s)). fst (snd p) \<noteq> h"
  using assms by (auto simp: timeoutsOwned_def)

lemma closed_buffer_free:
  assumes "timeoutsOwned s" and "firstTime (getBuf h s) = None"
  shows "\<forall>p \<in> set (pendingTimeouts s). fst (snd p) \<noteq> h"
  using assms by (auto simp: timeoutsOwned_def)

lemma pushToBuffer_owned:
  assumes "timeoutsOwned s"
  shows "timeoutsOwned (snd (pushToBuffer e h note now s))"
proof (cases "firstTime (getBuf h s)")
  case None
  let ?b = "(getBuf h s)\<lparr>firstTime := Some (time note), bufNotes := [note]\<rparr>"
  let ?w = "if h = L then chordWindowMsLeft (cfg s) else chordWindowMsRight (cfg s)"
  have free: "\<forall>p \<in> set (pendingTimeouts s). fst (snd p) \<noteq> h"
    using assms None by (rule closed_buffer_free)
  have "timeoutsOwned (putBuf h (?b\<lparr>timer := Some (fst (setTimeout h ?w (putBuf h ?b s)))\<rparr>)
          (snd (setTimeout h ?w (putBuf h ?b s))))"
    by (rule schedule_owned [OF putBuf_owned_free [OF assms free]]) simp
  with None show ?thesis
    by (simp add: pushToBuffer_def Let_def case_prod_unfold)
next
  case (Some ft)
  let ?b = "(getBuf h s)\<lparr>bufNotes := bufNotes (getBuf h s) @ [note]\<rparr>"
  let ?s1 = "putBuf h ?b s"
  have o1: "timeoutsOwned ?s1"
    by (rule putBuf_owned_same [OF assms]) simp_all
  have early: "timeoutsOwned (snd (processBuffer e h now (clearTimer h ?s1)))"
    by (rule processBuffer_owned [OF clearTimer_owned(1) [OF o1]])
  have roll: "timeoutsOwned (putBuf h ((getBuf h (clearTimer h ?s1))\<lparr>timer := Some (fst (setTimeout h d (clearTimer h ?s1)))\<rparr>)
          (snd (setTimeout h d (clearTimer h ?s1))))" for d
    by (rule schedule_owned [OF clearTimer_owned [OF o1]]) (simp add: clearTimer_simps Some)
  from Some o1 early roll show ?thesis
    by (simp add: pushToBuffer_def Let_def case_prod_unfold del: getBuf_putBuf)
qed

lemma timeoutsOwned_caught: "timeoutsOwned (caught r) = timeoutsOwned (snd r)"
  by (cases r) (simp add: caught_def timeoutsOwned_def getBuf_def split: outcome.splits)

lemma recomputeSplit_frame:
  assumes "\<And>s. f (decayHistory s) = f s" and "\<And>s. f (snd (emitSplitChange e now s)) = f s"
    and "\<And>s x. f (s\<lparr>splitPoint := x\<rparr>) = f s"
  shows "f (snd (recomputeSplit e now s)) = f s"
proof -
  have "f (snd (case emitSplitChange e now s' of (Threw, s1) \<Rightarrow> (Threw, s1)
          | (Returned, s1) \<Rightarrow> (Returned, decayHistory s1))) = f s'" for s'
    using assms(1) assms(2) [of s'] by (cases "emitSplitChange e now s'") (auto split: outcome.splits)
  then show ?thesis
    by (simp add: recomputeSplit_def Let_def assms)
qed

lemma recomputeSplit_timers:
  "pendingTimeouts (snd (recomputeSplit e now s)) = pendingTimeouts s"
  "getBuf h (snd (recomputeSplit e now s)) = getBuf h s"
  "pendingIntervals (snd (recomputeSplit e now s)) = pendingIntervals s"
  "adaptTimer (snd (recomputeSplit e now s)) = adaptTimer s"
  by (rule recomputeSplit_frame;
      simp add: decayHistory_def emitSplitChange_def Let_def case_prod_unfold getBuf_def)+

lemma dispose_simps:
  "pendingTimeouts (dispose s) =
     filter (\<lambda>p. Some (fst p) \<noteq> timer (bufferL s) \<and> Some (fst p) \<noteq> timer (bufferR s)) (pendingTimeouts s)"
  "pendingIntervals (dispose s) = filter (\<lambda>p. Some (fst p) \<noteq> adaptTimer s) (pendingIntervals s)"
  "disposed (dispose s)"
  "getBuf h (dispose s) = getBuf h s"
  "adaptTimer (dispose s) = adaptTimer s"
  "observations (dispose s) = observations s"
  by (auto simp: dispose_def Let_def clearTimeout_def clearInterval_def getBuf_def observations_def
        split: option.splits intro: filter_cong)

lemma dispose_owned:
  "timeoutsOwned s \<Longrightarrow> timeoutsOwned (dispose s)" "intervalsOwned s \<Longrightarrow> intervalsOwned (dispose s)"
  by (simp_all add: timeoutsOwned_def intervalsOwned_def dispose_simps)

lemma dispose_terminal:
  assumes "timeoutsOwned s" and "intervalsOwned s"
  shows "terminal (dispose s)"
proof -
  have "\<not> (Some (fst p) \<noteq> timer (bufferL s) \<and> Some (fst p) \<noteq> timer (bufferR s))"
    if "p \<in> set (pendingTimeouts s)" for p
    using assms(1) that by (cases "fst (snd p)") (auto simp: timeoutsOwned_def getBuf_def)
  then have "pendingTimeouts (dispose s) = []"
    unfolding dispose_simps by (simp add: filter_empty_conv)
  moreover have "pendingIntervals (dispose s) = []"
    using assms(2) unfolding dispose_simps by (auto simp: filter_empty_conv intervalsOwned_def)
  ultimately show ?thesis
    by (simp add: terminal_def dispose_simps)
qed

lemma step_timeoutsOwned:
  assumes "timeoutsOwned s"
  shows "timeoutsOwned (step e ev s)"
proof (cases ev)
  case (NoteOn m v t now)
  have "timeoutsOwned (s\<lparr>activeNotes := a, recentNoteOns := r\<rparr>)" for a r
    using assms by (auto simp: timeoutsOwned_def getBuf_def)
  then show ?thesis
    using assms unfolding NoteOn
    by (simp add: handleNoteOn_def Let_def timeoutsOwned_caught pushToBuffer_owned)
next
  case (NoteOff m)
  then show ?thesis
    using assms by (auto simp: handleNoteOff_def timeoutsOwned_def getBuf_def split: option.splits)
next
  case (ControlChange c v)
  then show ?thesis
    using assms by (auto simp: handleControlChange_def Let_def timeoutsOwned_def getBuf_def)
next
  case (OnChord cb)
  then show ?thesis using assms by (auto simp: onChord_def timeoutsOwned_def getBuf_def)
next
  case (OffChord cb)
  then show ?thesis using assms by (auto simp: offChord_def timeoutsOwned_def getBuf_def)
next
  case (OnSplitChange cb)
  then show ?thesis using assms by (auto simp: onSplitChange_def timeoutsOwned_def getBuf_def)
next
  case (OffSplitChange cb)
  then show ?thesis using assms by (auto simp: offSplitChange_def timeoutsOwned_def getBuf_def)
next
  case Dispose
  then show ?thesis
    using assms by (simp add: dispose_owned)
next
  case (TimeoutFires t now)
  then show ?thesis
    using assms
    by (simp add: timeoutsOwned_caught processBuffer_owned timeoutsOwned_clearTimeout
          split: list.splits prod.splits)
next
  case (IntervalFires t now)
  have "timeoutsOwned (snd (recomputeSplit e now s))"
    using assms by (simp add: timeoutsOwned_cong [of "snd (recomputeSplit e now s)" s] recomputeSplit_timers)
  then show ?thesis
    using assms unfolding IntervalFires by (simp add: timeoutsOwned_caught)
qed

lemma intervalsOwned_caught: "intervalsOwned (caught r) = intervalsOwned (snd r)"
  by (cases r) (simp add: caught_def intervalsOwned_def split: outcome.splits)

lemma intervalsOwned_cong:
  "pendingIntervals s' = pendingIntervals s \<Longrightarrow> adaptTimer s' = adaptTimer s \<Longrightarrow>
   intervalsOwned s' = intervalsOwned s"
  by (simp add: intervalsOwned_def)

lemma intervalsOwned_bufferStep: "bufferStep s s' \<Longrightarrow> intervalsOwned s' = intervalsOwned s"
  by (rule intervalsOwned_cong) (simp_all add: bufferStep_frame)

lemma step_intervalsOwned:
  assumes "intervalsOwned s"
  shows "intervalsOwned (step e ev s)"
proof (cases ev)
  case (NoteOn m v t now)
  have "intervalsOwned (s\<lparr>activeNotes := a, recentNoteOns := r\<rparr>)" for a r
    using assms by (simp add: intervalsOwned_def)
  then show ?thesis
    using assms unfolding NoteOn
    by (simp add: handleNoteOn_def Let_def intervalsOwned_caught
          intervalsOwned_bufferStep [OF bufferStep_pushToBuffer])
next
  case (NoteOff m)
  then show ?thesis
    using assms by (simp add: handleNoteOff_def intervalsOwned_def split: option.splits)
next
  case (ControlChange c v)
  then show ?thesis
    using assms by (simp add: handleControlChange_def Let_def intervalsOwned_def)
next
  case (OnChord cb)
  then show ?thesis using assms by (simp add: onChord_def intervalsOwned_def)
next
  case (OffChord cb)
  then show ?thesis using assms by (simp add: offChord_def intervalsOwned_def)
next
  case (OnSplitChange cb)
  then show ?thesis using assms by (simp add: onSplitChange_def intervalsOwned_def)
next
  case (OffSplitChange cb)
  then show ?thesis using assms by (simp add: offSplitChange_def intervalsOwned_def)
next
  case Dispose
  then show ?thesis
    using assms by (simp add: dispose_owned)
next
  case (TimeoutFires t now)
  have "intervalsOwned (snd (processBuffer e h now (clearTimeout t s)))" for h
    using assms
    by (simp add: intervalsOwned_bufferStep [OF bufferStep_trans [OF bufferStep_clearTimeout bufferStep_processBuffer]])
  then show ?thesis
    using assms unfolding TimeoutFires by (simp add: intervalsOwned_caught split: list.splits prod.splits)
next
  case (IntervalFires t now)
  have "intervalsOwned (snd (recomputeSplit e now s))"
    using assms by (simp add: intervalsOwned_cong [of "snd (recomputeSplit e now s)" s] recomputeSplit_timers)
  then show ?thesis
    using assms unfolding IntervalFires by (simp add: intervalsOwned_caught)
qed

lemma reachable_owned:
  "timeoutsOwned (exec e evs (construct c))" "intervalsOwned (exec e evs (construct c))"
proof -
  have t: "timeoutsOwned s \<Longrightarrow> timeoutsOwned (fold (step e) evs s)" for s
    by (induction evs arbitrary: s) (simp_all add: step_timeoutsOwned)
  have i: "intervalsOwned s \<Longrightarrow> intervalsOwned (fold (step e) evs s)" for s
    by (induction evs arbitrary: s) (simp_all add: step_intervalsOwned)
  have "timeoutsOwned (construct c)" "intervalsOwned (construct c)"
    by (simp_all add: construct_def setInterval_def Let_def timeoutsOwned_def intervalsOwned_def)
  then show "timeoutsOwned (exec e evs (construct c))" "intervalsOwned (exec e evs (construct c))"
    unfolding exec_def by (simp_all add: t i)
qed

subsection \<open>After disposal\<close>

lemma terminal_entry_points:
  assumes "terminal d"
  shows "handleNoteOn e m v t now d = (Returned, d)" "handleNoteOff m d = d" "handleControlChange k x d = d"
  using assms by (simp_all add: terminal_def handleNoteOn_def handleNoteOff_def handleControlChange_def)

lemma terminal_step:
  assumes "terminal d"
  shows "terminal (step e ev d) \<and> observations (step e ev d) = observations d"
proof (cases ev)
  case (NoteOn m v t now)
  then show ?thesis
    using assms by (simp add: terminal_entry_points caught_def)
next
  case (NoteOff m)
  then show ?thesis using assms by (simp add: terminal_entry_points)
next
  case (ControlChange c v)
  then show ?thesis using assms by (simp add: terminal_entry_points)
next
  case (OnChord cb)
  then show ?thesis using assms by (simp add: terminal_def onChord_def observations_def)
next
  case (OffChord cb)
  then show ?thesis using assms by (simp add: terminal_def offChord_def observations_def)
next
  case (OnSplitChange cb)
  then show ?thesis using assms by (simp add: terminal_def onSplitChange_def observations_def)
next
  case (OffSplitChange cb)
  then show ?thesis using assms by (simp add: terminal_def offSplitChange_def observations_def)
next
  case Dispose
  then show ?thesis using assms by (simp add: terminal_def dispose_simps)
next
  case (TimeoutFires t now)
  then show ?thesis using assms by (simp add: terminal_def)
next
  case (IntervalFires t now)
  then show ?thesis using assms by (simp add: terminal_def)
qed

lemma terminal_fold:
  "terminal d \<Longrightarrow> terminal (fold (step e) evs d) \<and> observations (fold (step e) evs d) = observations d"
proof (induction evs arbitrary: d)
  case Nil
  then show ?case by simp
next
  case (Cons ev evs)
  from terminal_step [OF Cons.prems, of e ev] Cons.IH [of "step e ev d"] show ?case by simp
qed

subsection \<open>Processing a buffer when nothing throws\<close>

lemma processBuffer_timer_None:
  assumes "timer (getBuf h s) = None"
  shows "timer (getBuf h (snd (processBuffer e h now s))) = None"
proof -
  have "timer (getBuf h (snd (case emitChord e ev s of (Threw, s1) \<Rightarrow> (Threw, s1)
          | (Returned, s1) \<Rightarrow> (Returned, resetBuffer h s1)))) = None" for ev
    using assms emitChord_simps(2) [of h e ev s]
    by (cases "emitChord e ev s") (auto simp: resetBuffer_simps split: outcome.splits)
  with assms show ?thesis
    by (simp add: processBuffer_def Let_def resetBuffer_simps split: sum.splits)
qed

lemma pending_clearTimer_subset: "set (pendingTimeouts (clearTimer h s)) \<subseteq> set (pendingTimeouts s)"
  by (auto simp: clearTimer_simps split: option.splits)

lemma processBuffer_pending_subset:
  "set (pendingTimeouts (snd (processBuffer e h now s))) \<subseteq> set (pendingTimeouts s)"
proof -
  have r: "set (pendingTimeouts (resetBuffer h s')) \<subseteq> set (pendingTimeouts s')" for s'
    by (simp add: resetBuffer_simps pending_clearTimer_subset)
  have "set (pendingTimeouts (snd (case emitChord e ev s of (Threw, s1) \<Rightarrow> (Threw, s1)
          | (Returned, s1) \<Rightarrow> (Returned, resetBuffer h s1)))) \<subseteq> set (pendingTimeouts s)" for ev
    using r [of "snd (emitChord e ev s)"] emitChord_simps(1) [of e ev s]
    by (cases "emitChord e ev s") (auto split: outcome.splits)
  with r [of s] show ?thesis
    by (simp add: processBuffer_def Let_def split: sum.splits)
qed

lemma composeEvent_total:
  assumes "\<forall>ns. detect e ns \<noteq> DetectThrows"
  shows "\<exists>ev. composeEvent e h now s = Inr ev"
proof -
  have "\<exists>nm. detectChord e pcs = Inr nm" for pcs
    using assms [rule_format, of "map pcToNote pcs"]
    by (cases "detect e (map pcToNote pcs)") (simp_all add: detectChord_def)
  then have d: "\<exists>nm. (if b then detectChord e pcs else Inr None) = Inr nm" for b pcs
    by simp
  have k: "\<exists>ev. (case x of Inl _ \<Rightarrow> Inl () | Inr chordName \<Rightarrow> Inr (f chordName)) = Inr ev"
    if "\<exists>nm. x = Inr nm" for x :: "unit + string option" and f :: "string option \<Rightarrow> ChordEvent"
    using that by auto
  show ?thesis
    unfolding composeEvent_def Let_def by (rule k) (rule d)
qed

lemma emitChord_quiet:
  assumes "\<forall>cb ev. \<not> chordThrows e cb ev"
  shows "fst (emitChord e ev s) = Returned"
  using assms invokeAll_quiet [where throws = "chordThrows e" and cbs = "chordCallbacks s" and evt = ev]
  by (simp add: emitChord_def Let_def)

lemma processBuffer_quiet:
  assumes "firstTime (getBuf h s) = Some ft" and "ft \<noteq> 0" and "bufNotes (getBuf h s) \<noteq> []"
    and "composeEvent e h now s = Inr ev" and "fst (emitChord e ev s) = Returned"
  shows "processBuffer e h now s = (Returned, resetBuffer h (snd (emitChord e ev s)))"
  using assms by (cases "emitChord e ev s") (simp add: processBuffer_def Let_def)

subsection \<open>The round trip with a nonzero window start\<close>

lemma emittedChords_caught: "emittedChords (caught r) = emittedChords (snd r)"
  by (cases r) (simp add: caught_def split: outcome.splits)

lemma round_trip_nonzero_start:
  assumes "t1 \<noteq> 0" and "t1 \<le> t2" and "t2 \<le> t3" and "t3 \<le> t1 + 10"
    and "detect e [Some ''C'', Some ''E'', Some ''G''] \<noteq> DetectThrows"
  shows "emittedChords (exec e [NoteOn 60 100 t1 t1, NoteOn 64 90 t2 t2, NoteOn 67 95 t3 t3] (construct DEFAULTS)) = []
       \<and> pendingTimeouts (exec e [NoteOn 60 100 t1 t1, NoteOn 64 90 t2 t2, NoteOn 67 95 t3 t3] (construct DEFAULTS))
           = [(2, R, 50)]
       \<and> (\<exists>ev. emittedChords (exec e [NoteOn 60 100 t1 t1, NoteOn 64 90 t2 t2, NoteOn 67 95 t3 t3,
                    TimeoutFires 2 tf] (construct DEFAULTS)) = [ev]
              \<and> role ev = Chord \<and> pitchClasses ev = [0, 4, 7] \<and> ce_hand ev = R \<and> ce_notes ev = [60, 64, 67])"
proof -
  let ?s = "exec e [NoteOn 60 100 t1 t1, NoteOn 64 90 t2 t2, NoteOn 67 95 t3 t3] (construct DEFAULTS)"
  have s: "emittedChords ?s = []" "pendingTimeouts ?s = [(2, R, 50)]"
    "bufferR ?s = \<lparr>bufNotes = [\<lparr>midi = 60, velocity = 100, time = t1\<rparr>, \<lparr>midi = 64, velocity = 90, time = t2\<rparr>,
                               \<lparr>midi = 67, velocity = 95, time = t3\<rparr>],
                   firstTime = Some t1, timer = Some 2, lastEmissionTime = 0\<rparr>"
    "activeNotes ?s = [(60, \<lparr>midi = 60, velocity = 100, time = t1, sustained = False, hand = R\<rparr>),
                       (64, \<lparr>midi = 64, velocity = 90, time = t2, sustained = False, hand = R\<rparr>),
                       (67, \<lparr>midi = 67, velocity = 95, time = t3, sustained = False, hand = R\<rparr>)]"
    "cfg ?s = DEFAULTS"
    using assms(2-4)
    by (simp_all add: exec_def construct_def DEFAULTS_def setInterval_def handleNoteOn_def
          pushToBuffer_def getBuf_def putBuf_def setTimeout_def caught_def Let_def emptyBuffer_def)
  let ?c = "clearTimeout 2 ?s"
  have c: "getBuf R ?c = bufferR ?s" "activeNotes ?c = activeNotes ?s" "cfg ?c = cfg ?s"
    "emittedChords ?c = []"
    by (simp_all add: clearTimeout_def getBuf_def s(1))
  have run: "exec e [NoteOn 60 100 t1 t1, NoteOn 64 90 t2 t2, NoteOn 67 95 t3 t3, TimeoutFires 2 tf]
        (construct DEFAULTS) = caught (processBuffer e R tf ?c)"
  proof -
    have "exec e [NoteOn 60 100 t1 t1, NoteOn 64 90 t2 t2, NoteOn 67 95 t3 t3, TimeoutFires 2 tf]
        (construct DEFAULTS) = step e (TimeoutFires 2 tf) ?s"
      by (simp add: exec_def)
    also have "\<dots> = caught (processBuffer e R tf ?c)"
      by (simp add: s(2))
    finally show ?thesis .
  qed
  have ns: "gatherNoteSet DEFAULTS R (bufNotes (bufferR ?s)) (activeNotes ?s) = [60, 64, 67]"
    unfolding s(3,4) by (simp add: gatherNoteSet_def DEFAULTS_def)
  have pcs: "sort (js_set (map (\<lambda>n. js_rem n 12) [60, 64, 67])) = [0, 4, 7]"
    by (simp add: js_set_def js_rem_def)
  have rl: "classifyRole DEFAULTS R [60, 64, 67] [0, 4, 7] w = Chord" for w
    by (simp add: classifyRole_def DEFAULTS_def)
  have names: "map pcToNote [0, 4, 7] = [Some ''C'', Some ''E'', Some ''G'']"
    by (simp add: pcToNote_def)
  have "\<exists>nm. detectChord e [0, 4, 7] = Inr nm"
    using assms(5) unfolding detectChord_def names
    by (cases "detect e [Some ''C'', Some ''E'', Some ''G'']") simp_all
  then obtain nm where nm: "detectChord e [0, 4, 7] = Inr nm" ..
  obtain ev where ev: "composeEvent e R tf ?c = Inr ev" "role ev = Chord" "pitchClasses ev = [0, 4, 7]"
    "ce_hand ev = R" "ce_notes ev = [60, 64, 67]"
    unfolding composeEvent_def Let_def c s(5) ns pcs rl using nm by simp
  have "emittedChords (snd (processBuffer e R tf ?c)) = [ev]"
    unfolding processBuffer_emittedChords c using ev(1) assms(1) by (simp add: s(3))
  with ev s(1,2) show ?thesis
    unfolding run emittedChords_caught by simp
qed

section \<open>Classification, velocities and note sets of a closed window\<close>

text \<open>
  C6. Role classification of a closed buffer. Whenever processBuffer emits an event, the
  number of distinct pitch classes of its notes is at least 1 and is the length of its
  pitchClasses field, and the role follows the priority order on that number: at least
  maxClusterSize gives Cluster; otherwise at least 3 gives Chord; otherwise exactly 2
  gives Dyad; otherwise (a single pitch class) BassLine exactly when the hand is Left
  and the window duration exceeds leftBassArpGapMs, and Arpeggio in every other case.
\<close>

theorem role_classification:
  assumes "emittedChords (snd (processBuffer e h now s)) = emittedChords s @ [ev]"
  shows "1 \<le> card (set (map (\<lambda>n. js_rem n 12) (ce_notes ev)))
       \<and> length (pitchClasses ev) = card (set (map (\<lambda>n. js_rem n 12) (ce_notes ev)))
       \<and> rawWindowMs ev = now - the (firstTime (getBuf h s))
       \<and> role ev =
           (if int (card (set (map (\<lambda>n. js_rem n 12) (ce_notes ev)))) \<ge> maxClusterSize (cfg s) then Cluster
            else if card (set (map (\<lambda>n. js_rem n 12) (ce_notes ev))) \<ge> 3 then Chord
            else if card (set (map (\<lambda>n. js_rem n 12) (ce_notes ev))) = 2 then Dyad
            else if h = L \<and> rawWindowMs ev > leftBassArpGapMs (cfg s) then BassLine
            else Arpeggio)"
proof -
  have ev: "composeEvent e h now s = Inr ev" and ne: "bufNotes (getBuf h s) \<noteq> []"
    using assms by (rule processBuffer_emits_composed)+
  have "length (ce_notes ev) \<ge> length (bufNotes (getBuf h s))"
    by (simp add: composeEvent_fields(2) [OF ev] length_gatherNoteSet)
  with ne have "ce_notes ev \<noteq> []" by auto
  then have "set (map (\<lambda>n. js_rem n 12) (ce_notes ev)) \<noteq> {}" by simp
  then have pos: "1 \<le> card (set (map (\<lambda>n. js_rem n 12) (ce_notes ev)))"
    by (metis List.finite_set card_0_eq less_one not_le)
  have len: "length (pitchClasses ev) = card (set (map (\<lambda>n. js_rem n 12) (ce_notes ev)))"
    by (simp only: composeEvent_fields(3) [OF ev] length_sort length_js_set)
  have "role ev = classifyRole (cfg s) h (ce_notes ev) (pitchClasses ev) (rawWindowMs ev)"
    by (rule composeEvent_fields(6) [OF ev])
  with pos len composeEvent_fields(5) [OF ev] show ?thesis
    by (simp add: classifyRole_def)
qed

theorem role_classification_witness:
  "role (last (emittedChords (snd (processBuffer exampleEnv R 1050
      (exec exampleEnv triad (construct DEFAULTS)))))) = Chord"
proof -
  let ?s = "exec exampleEnv triad (construct DEFAULTS)"
  let ?ev = "last (emittedChords (snd (processBuffer exampleEnv R 1050 ?s)))"
  have h: "emittedChords (snd (processBuffer exampleEnv R 1050 ?s)) = emittedChords ?s @ [?ev]"
    by (simp add: eval_defs triad_def exampleEnv_def)
  have n: "ce_notes ?ev = [60, 64, 67]" "maxClusterSize (cfg ?s) = 7"
    by (simp_all add: eval_defs triad_def exampleEnv_def)
  have c: "card (set (map (\<lambda>n. js_rem n 12) [60, 64, 67])) = 3"
    by (simp add: js_rem_def)
  from role_classification [OF h] n c show ?thesis
    by simp
qed

text \<open>
  C9. Velocity blend bounds. For every window that closes with an event: with the
  hand's blend factor equal to 1 every normalized velocity is the value of the method
  median on the window's raw velocities, and this value is the median of the raw
  velocities rounded to the nearest integer (a half upwards): it is within 1/2 of the
  median, it is the median itself when the number of notes is odd, and at least half of
  the raw velocities are at most it and at least half are at least it. With blend factor
  0 the normalized velocities are the raw velocities.
\<close>

theorem velocity_blend_bounds:
  assumes "emittedChords (snd (processBuffer e h now s)) = emittedChords s @ [ev]"
  shows "((if h = R then velocityBlendRight (cfg s) else velocityBlendLeft (cfg s)) = 1 \<longrightarrow>
            velocities ev = replicate (length (bufNotes (getBuf h s)))
                                      (median (map velocity (bufNotes (getBuf h s))))
          \<and> (\<forall>v \<in> set (velocities ev).
                v = \<lfloor>trueMedian (map velocity (bufNotes (getBuf h s))) + 1 / 2\<rfloor>
              \<and> \<bar>real_of_int v - trueMedian (map velocity (bufNotes (getBuf h s)))\<bar> \<le> 1 / 2
              \<and> (odd (length (bufNotes (getBuf h s))) \<longrightarrow>
                    real_of_int v = trueMedian (map velocity (bufNotes (getBuf h s))))
              \<and> length (bufNotes (getBuf h s))
                    \<le> 2 * length (filter (\<lambda>x. x \<le> v) (map velocity (bufNotes (getBuf h s))))
              \<and> length (bufNotes (getBuf h s))
                    \<le> 2 * length (filter (\<lambda>x. v \<le> x) (map velocity (bufNotes (getBuf h s))))))
       \<and> ((if h = R then velocityBlendRight (cfg s) else velocityBlendLeft (cfg s)) = 0 \<longrightarrow>
            velocities ev = map velocity (bufNotes (getBuf h s)))"
proof -
  let ?raw = "map velocity (bufNotes (getBuf h s))"
  have ev: "composeEvent e h now s = Inr ev" and ne: "bufNotes (getBuf h s) \<noteq> []"
    using assms by (rule processBuffer_emits_composed)+
  from ne have raw: "?raw \<noteq> []" by simp
  have m: "median ?raw = \<lfloor>trueMedian ?raw + 1 / 2\<rfloor>"
    by (rule median_trueMedian [OF raw])
  have close: "\<bar>real_of_int (median ?raw) - trueMedian ?raw\<bar> \<le> 1 / 2"
    unfolding m by (rule round_half_up_close)
  have odd: "real_of_int (median ?raw) = trueMedian ?raw" if "odd (length (bufNotes (getBuf h s)))"
    unfolding m using that by (simp add: trueMedian_def)
  have halves: "length (bufNotes (getBuf h s)) \<le> 2 * length (filter (\<lambda>x. x \<le> median ?raw) ?raw)"
    "length (bufNotes (getBuf h s)) \<le> 2 * length (filter (\<lambda>x. median ?raw \<le> x) ?raw)"
    using median_halves [OF raw] by simp_all
  have one: "velocities ev = replicate (length (bufNotes (getBuf h s))) (median ?raw)"
    if "(if h = R then velocityBlendRight (cfg s) else velocityBlendLeft (cfg s)) = 1"
    unfolding composeEvent_fields(4) [OF ev] that
    by (simp add: blendVelocity_one map_replicate_const)
  have zero: "velocities ev = ?raw"
    if "(if h = R then velocityBlendRight (cfg s) else velocityBlendLeft (cfg s)) = 0"
    unfolding composeEvent_fields(4) [OF ev] that
    by (simp add: blendVelocity_zero)
  have each: "v = median ?raw" if "v \<in> set (replicate (length (bufNotes (getBuf h s))) (median ?raw))" for v
    using that by simp
  show ?thesis
  proof (intro conjI impI ballI)
    assume b: "(if h = R then velocityBlendRight (cfg s) else velocityBlendLeft (cfg s)) = 1"
    show "velocities ev = replicate (length (bufNotes (getBuf h s))) (median ?raw)"
      by (rule one [OF b])
    fix v assume "v \<in> set (velocities ev)"
    then have v: "v = median ?raw"
      unfolding one [OF b] by (rule each)
    show "v = \<lfloor>trueMedian ?raw + 1 / 2\<rfloor>" unfolding v by (rule m)
    show "\<bar>real_of_int v - trueMedian ?raw\<bar> \<le> 1 / 2" unfolding v by (rule close)
    show "real_of_int v = trueMedian ?raw" if "odd (length (bufNotes (getBuf h s)))"
      unfolding v by (rule odd [OF that])
    show "length (bufNotes (getBuf h s)) \<le> 2 * length (filter (\<lambda>x. x \<le> v) ?raw)"
      unfolding v by (rule halves)
    show "length (bufNotes (getBuf h s)) \<le> 2 * length (filter (\<lambda>x. v \<le> x) ?raw)"
      unfolding v by (rule halves)
  next
    assume "(if h = R then velocityBlendRight (cfg s) else velocityBlendLeft (cfg s)) = 0"
    then show "velocities ev = ?raw" by (rule zero)
  qed
qed

theorem velocity_blend_bounds_witness:
  "trueMedian [100, 91] = 191 / 2
   \<and> velocities (last (emittedChords (snd (processBuffer exampleEnv R 1050
      (exec exampleEnv dyad (construct (DEFAULTS\<lparr>velocityBlendRight := 1\<rparr>))))))) = [96, 96]
   \<and> velocities (last (emittedChords (snd (processBuffer exampleEnv R 1050
      (exec exampleEnv triad (construct (DEFAULTS\<lparr>velocityBlendRight := 1\<rparr>))))))) = [95, 95, 95]
   \<and> velocities (last (emittedChords (snd (processBuffer exampleEnv R 1050
      (exec exampleEnv triad (construct (DEFAULTS\<lparr>velocityBlendRight := 0\<rparr>))))))) = [100, 90, 95]"
proof -
  let ?s2 = "exec exampleEnv dyad (construct (DEFAULTS\<lparr>velocityBlendRight := 1\<rparr>))"
  let ?s1 = "exec exampleEnv triad (construct (DEFAULTS\<lparr>velocityBlendRight := 1\<rparr>))"
  let ?s0 = "exec exampleEnv triad (construct (DEFAULTS\<lparr>velocityBlendRight := 0\<rparr>))"
  let ?ev2 = "last (emittedChords (snd (processBuffer exampleEnv R 1050 ?s2)))"
  let ?ev1 = "last (emittedChords (snd (processBuffer exampleEnv R 1050 ?s1)))"
  let ?ev0 = "last (emittedChords (snd (processBuffer exampleEnv R 1050 ?s0)))"
  have h2: "emittedChords (snd (processBuffer exampleEnv R 1050 ?s2)) = emittedChords ?s2 @ [?ev2]"
    by (simp add: eval_defs dyad_def exampleEnv_def)
  have h1: "emittedChords (snd (processBuffer exampleEnv R 1050 ?s1)) = emittedChords ?s1 @ [?ev1]"
    by (simp add: eval_defs triad_def exampleEnv_def)
  have h0: "emittedChords (snd (processBuffer exampleEnv R 1050 ?s0)) = emittedChords ?s0 @ [?ev0]"
    by (simp add: eval_defs triad_def exampleEnv_def)
  have b2: "velocityBlendRight (cfg ?s2) = 1" "map velocity (bufNotes (getBuf R ?s2)) = [100, 91]"
    "length (bufNotes (getBuf R ?s2)) = Suc (Suc 0)"
    by (simp_all add: eval_defs dyad_def exampleEnv_def)
  have b1: "velocityBlendRight (cfg ?s1) = 1" "map velocity (bufNotes (getBuf R ?s1)) = [100, 90, 95]"
    "length (bufNotes (getBuf R ?s1)) = Suc (Suc (Suc 0))"
    by (simp_all add: eval_defs triad_def exampleEnv_def)
  have b0: "velocityBlendRight (cfg ?s0) = 0" "map velocity (bufNotes (getBuf R ?s0)) = [100, 90, 95]"
    by (simp_all add: eval_defs triad_def exampleEnv_def)
  have t2: "trueMedian [100, 91] = 191 / 2"
    by (simp add: trueMedian_def)
  have t3: "trueMedian [100, 90, 95] = 95"
    by (simp add: trueMedian_def)
  from velocity_blend_bounds [OF h2] b2
  have "velocities ?ev2 = [median [100, 91], median [100, 91]]"
    "\<forall>v \<in> set (velocities ?ev2). v = \<lfloor>trueMedian [100, 91] + 1 / 2\<rfloor>"
    by simp_all
  then have 2: "velocities ?ev2 = [96, 96]"
    unfolding t2 by simp
  from velocity_blend_bounds [OF h1] b1
  have "velocities ?ev1 = [median [100, 90, 95], median [100, 90, 95], median [100, 90, 95]]"
    "\<forall>v \<in> set (velocities ?ev1). v = \<lfloor>trueMedian [100, 90, 95] + 1 / 2\<rfloor>"
    by simp_all
  then have 1: "velocities ?ev1 = [95, 95, 95]"
    unfolding t3 by simp
  from velocity_blend_bounds [OF h0] b0 have 0: "velocities ?ev0 = [100, 90, 95]"
    by simp
  from t2 2 1 0 show ?thesis by simp
qed



section \<open>Sustain pedal\<close>

text \<open>
  C7. Sustain semantics. In every state a live manager can reach with the pedal down:
  handleNoteOff(p) for an active pitch p keeps p's entry and only sets its sustained flag,
  every other field and every other entry being unchanged; and a pedal release
  (controller 64, value below 64) clears the pedal flag and deletes exactly the active
  entries whose sustained flag is set, all other entries and fields unchanged.
\<close>

theorem sustain_semantics:
  assumes "s = exec e evs (construct c)" and "\<not> disposed s" and "pedalDown s"
  shows "(\<forall>p an. map_of (activeNotes s) p = Some an \<longrightarrow>
            handleNoteOff p s = s\<lparr>activeNotes := AList.update p (an\<lparr>sustained := True\<rparr>) (activeNotes s)\<rparr>
          \<and> map_of (activeNotes (handleNoteOff p s)) = (map_of (activeNotes s))(p \<mapsto> an\<lparr>sustained := True\<rparr>))
       \<and> (\<forall>v. v < 64 \<longrightarrow>
            handleControlChange 64 v s =
              s\<lparr>pedalDown := False,
                activeNotes := filter (\<lambda>(m, an). \<not> sustained an) (activeNotes s)\<rparr>)"
proof -
  have d: "distinct (map fst (activeNotes s))"
    unfolding assms(1) by (rule distinct_activeNotes_reachable)
  have off: "handleNoteOff p s = s\<lparr>activeNotes := AList.update p (an\<lparr>sustained := True\<rparr>) (activeNotes s)\<rparr>
      \<and> map_of (activeNotes (handleNoteOff p s)) = (map_of (activeNotes s))(p \<mapsto> an\<lparr>sustained := True\<rparr>)"
    if "map_of (activeNotes s) p = Some an" for p an
    using that assms(2,3) by (simp add: handleNoteOff_def update_conv')
  have rel: "handleControlChange 64 v s =
      s\<lparr>pedalDown := False, activeNotes := filter (\<lambda>(m, an). \<not> sustained an) (activeNotes s)\<rparr>"
    if "v < 64" for v
    using that assms(2,3) release_filter [OF d]
    by (simp add: handleControlChange_def Let_def case_prod_unfold)
  from off rel show ?thesis by blast
qed

theorem sustain_semantics_witness:
  "map (\<lambda>(m, an). (m, sustained an))
      (activeNotes (handleNoteOff 60 (exec exampleEnv
          [ControlChange 64 127, NoteOn 60 100 1000 1000, NoteOn 64 90 1001 1001] (construct DEFAULTS))))
     = [(60, True), (64, False)]
   \<and> map fst (activeNotes (handleControlChange 64 0 (exec exampleEnv
          [ControlChange 64 127, NoteOn 60 100 1000 1000, NoteOn 64 90 1001 1001, NoteOff 60] (construct DEFAULTS))))
     = [64]"
proof -
  let ?evs = "[ControlChange 64 127, NoteOn 60 100 1000 1000, NoteOn 64 90 1001 1001]"
  let ?s = "exec exampleEnv ?evs (construct DEFAULTS)"
  let ?s' = "exec exampleEnv [ControlChange 64 127, NoteOn 60 100 1000 1000, NoteOn 64 90 1001 1001, NoteOff 60]
              (construct DEFAULTS)"
  have live: "\<not> disposed ?s" "pedalDown ?s" "\<not> disposed ?s'" "pedalDown ?s'"
    by (simp_all add: eval_defs exampleEnv_def)
  have a: "activeNotes ?s = [(60, \<lparr>midi = 60, velocity = 100, time = 1000, sustained = False, hand = R\<rparr>),
                            (64, \<lparr>midi = 64, velocity = 90, time = 1001, sustained = False, hand = R\<rparr>)]"
    by (simp add: eval_defs exampleEnv_def)
  have a': "activeNotes ?s' = [(60, \<lparr>midi = 60, velocity = 100, time = 1000, sustained = True, hand = R\<rparr>),
                            (64, \<lparr>midi = 64, velocity = 90, time = 1001, sustained = False, hand = R\<rparr>)]"
    by (simp add: eval_defs exampleEnv_def)
  have m: "map_of (activeNotes ?s) 60 = Some \<lparr>midi = 60, velocity = 100, time = 1000, sustained = False, hand = R\<rparr>"
    unfolding a by simp
  from sustain_semantics [OF refl live(1,2)] m
  have "handleNoteOff 60 ?s = ?s\<lparr>activeNotes := AList.update 60
          (\<lparr>midi = 60, velocity = 100, time = 1000, sustained = False, hand = R\<rparr>\<lparr>sustained := True\<rparr>) (activeNotes ?s)\<rparr>"
    by blast
  then have 1: "map (\<lambda>(m, an). (m, sustained an)) (activeNotes (handleNoteOff 60 ?s)) = [(60, True), (64, False)]"
    by (simp add: a)
  from sustain_semantics [OF refl live(3,4)]
  have "handleControlChange 64 0 ?s' =
      ?s'\<lparr>pedalDown := False, activeNotes := filter (\<lambda>(m, an). \<not> sustained an) (activeNotes ?s')\<rparr>"
    by simp
  then have 2: "map fst (activeNotes (handleControlChange 64 0 ?s')) = [64]"
    by (simp add: a')
  from 1 2 show ?thesis by simp
qed

section \<open>Adaptive split\<close>

text \<open>
  C8, as amended. On a split-estimator tick: if the rolling history holds fewer than 8
  pitches (whatever was fed since the last tick) the tick changes nothing. Otherwise, with
  mid the rounded midpoint of the pitches at indices n div 4 and 3n div 4 of the sorted
  history and clamped its value clamped into splitMin..splitMax: if mid differs from the
  split point by at least splitShiftThreshold and clamped differs from the split point,
  the split point becomes clamped (within the bounds when splitMin is at most splitMax)
  and one SplitChangeEvent carrying it is emitted; in every other case the split point
  stays and no event is emitted. The tick throws exactly when the split point changed and
  a split subscriber throws on the event; then the history is left as it is, and in
  every other case the history is cut to its last 128 pitches.
\<close>

theorem split_tick:
  assumes "recomputeSplit e now s = (out, s')"
  shows "(length (recentNoteOns s) < 8 \<longrightarrow> s' = s \<and> out = Returned)
       \<and> (8 \<le> length (recentNoteOns s) \<longrightarrow>
            (let n = length (recentNoteOns s);
                 sorted = sort (recentNoteOns s);
                 mid = js_round ((real_of_int (sorted ! (n div 4)) + real_of_int (sorted ! (3 * n div 4))) / 2);
                 clamped = min (splitMax (cfg s)) (max (splitMin (cfg s)) mid)
             in if splitShiftThreshold (cfg s) \<le> \<bar>mid - splitPoint s\<bar> \<and> clamped \<noteq> splitPoint s
                then splitPoint s' = clamped
                   \<and> emittedSplits s' = emittedSplits s @ [\<lparr>splitMidi = clamped, sc_timestamp = now\<rparr>]
                   \<and> (splitMin (cfg s) \<le> splitMax (cfg s) \<longrightarrow>
                         splitMin (cfg s) \<le> splitPoint s' \<and> splitPoint s' \<le> splitMax (cfg s))
                else splitPoint s' = splitPoint s \<and> emittedSplits s' = emittedSplits s))
       \<and> recentNoteOns s' =
            (if out = Threw then recentNoteOns s
             else drop (length (recentNoteOns s) - 128) (recentNoteOns s))
       \<and> (out = Threw \<longleftrightarrow>
            splitPoint s' \<noteq> splitPoint s
            \<and> (\<exists>cb \<in> set (splitCallbacks s).
                  splitThrows e cb \<lparr>splitMidi = splitPoint s', sc_timestamp = now\<rparr>))"
proof -
  have s': "s' = snd (recomputeSplit e now s)" and out: "out = fst (recomputeSplit e now s)"
    using assms by simp_all
  have short: "s' = s \<and> out = Returned" if "length (recentNoteOns s) < 8"
    using that assms by (simp add: recomputeSplit_def)
  have long: "(let n = length (recentNoteOns s);
                 sorted = sort (recentNoteOns s);
                 mid = js_round ((real_of_int (sorted ! (n div 4)) + real_of_int (sorted ! (3 * n div 4))) / 2);
                 clamped = min (splitMax (cfg s)) (max (splitMin (cfg s)) mid)
             in if splitShiftThreshold (cfg s) \<le> \<bar>mid - splitPoint s\<bar> \<and> clamped \<noteq> splitPoint s
                then splitPoint s' = clamped
                   \<and> emittedSplits s' = emittedSplits s @ [\<lparr>splitMidi = clamped, sc_timestamp = now\<rparr>]
                   \<and> (splitMin (cfg s) \<le> splitMax (cfg s) \<longrightarrow>
                         splitMin (cfg s) \<le> splitPoint s' \<and> splitPoint s' \<le> splitMax (cfg s))
                else splitPoint s' = splitPoint s \<and> emittedSplits s' = emittedSplits s)"
    if "8 \<le> length (recentNoteOns s)"
    using that unfolding s' recomputeSplit_cases Let_def quartileCenter_eq [symmetric]
    by auto
  have hist: "recentNoteOns s' =
            (if out = Threw then recentNoteOns s
             else drop (length (recentNoteOns s) - 128) (recentNoteOns s))"
    unfolding s' out by (rule recomputeSplit_history)
  have thr: "out = Threw \<longleftrightarrow>
            splitPoint s' \<noteq> splitPoint s
            \<and> (\<exists>cb \<in> set (splitCallbacks s).
                  splitThrows e cb \<lparr>splitMidi = splitPoint s', sc_timestamp = now\<rparr>)"
    unfolding s' out by (rule recomputeSplit_outcome)
  from short long hist thr show ?thesis by blast
qed

theorem split_tick_witness:
  "snd (recomputeSplit exampleEnv 1000 (exec exampleEnv triad (construct DEFAULTS)))
     = exec exampleEnv triad (construct DEFAULTS)
   \<and> splitPoint (snd (recomputeSplit exampleEnv 2000 (exec exampleEnv splitRun (construct DEFAULTS)))) = 64
   \<and> emittedSplits (snd (recomputeSplit exampleEnv 2000 (exec exampleEnv splitRun (construct DEFAULTS))))
     = [\<lparr>splitMidi = 64, sc_timestamp = 2000\<rparr>]
   \<and> recentNoteOns (snd (recomputeSplit exampleEnv 1000 longHistory)) = replicate 128 60
   \<and> splitPoint (snd (recomputeSplit exampleEnv 1000 longHistory)) = 60
   \<and> fst (recomputeSplit brokenSplitEnv 1000 longHighHistory) = Threw
   \<and> recentNoteOns (snd (recomputeSplit brokenSplitEnv 1000 longHighHistory)) = replicate 130 80"
proof -
  let ?a = "exec exampleEnv triad (construct DEFAULTS)"
  let ?b = "exec exampleEnv splitRun (construct DEFAULTS)"
  have a: "length (recentNoteOns ?a) < 8"
    by (simp add: eval_defs triad_def exampleEnv_def)
  have b: "recentNoteOns ?b = [60, 60, 60, 60, 60, 60, 60, 60, 80, 80, 80, 80, 80, 80, 80]"
    "splitPoint ?b = 60" "emittedSplits ?b = []" "splitShiftThreshold (cfg ?b) = 5"
    "splitMin (cfg ?b) = 52" "splitMax (cfg ?b) = 64"
    by (simp_all add: eval_defs splitRun_def eightAtSixty_def sevenAtEighty_def exampleEnv_def)
  have srt: "sort [60, 60, 60, 60, 60, 60, 60, 60, 80, 80, 80, 80, 80, 80, 80 :: int]
      = [60, 60, 60, 60, 60, 60, 60, 60, 80, 80, 80, 80, 80, 80, 80]"
    by simp
  have c: "recentNoteOns longHistory = replicate 130 60" "splitPoint longHistory = 60"
    "splitCallbacks longHistory = []" "splitShiftThreshold (cfg longHistory) = 5"
    "splitMin (cfg longHistory) = 52" "splitMax (cfg longHistory) = 64"
    by (simp_all add: longHistory_def construct_def DEFAULTS_def setInterval_def Let_def)
  have d: "recentNoteOns longHighHistory = replicate 130 80" "splitPoint longHighHistory = 60"
    "splitCallbacks longHighHistory = [1]" "splitShiftThreshold (cfg longHighHistory) = 5"
    "splitMin (cfg longHighHistory) = 52" "splitMax (cfg longHighHistory) = 64"
    by (simp_all add: longHighHistory_def onSplitChange_def construct_def DEFAULTS_def setInterval_def Let_def)
  have rs: "sort (replicate 130 x) = replicate 130 x" for x :: int
    by (simp add: sort_key_id_if_sorted)
  from split_tick [OF prod.collapse [symmetric], where e = exampleEnv and now = 1000 and s = ?a] a
  have 1: "snd (recomputeSplit exampleEnv 1000 ?a) = ?a"
    by blast
  from split_tick [OF prod.collapse [symmetric], where e = exampleEnv and now = 2000 and s = ?b]
  have 2: "splitPoint (snd (recomputeSplit exampleEnv 2000 ?b)) = 64
         \<and> emittedSplits (snd (recomputeSplit exampleEnv 2000 ?b)) = [\<lparr>splitMidi = 64, sc_timestamp = 2000\<rparr>]"
    unfolding b srt Let_def by (simp add: js_round_def)
  from split_tick [OF prod.collapse [symmetric], where e = exampleEnv and now = 1000 and s = longHistory]
  have 3: "recentNoteOns (snd (recomputeSplit exampleEnv 1000 longHistory)) = replicate 128 60
         \<and> splitPoint (snd (recomputeSplit exampleEnv 1000 longHistory)) = 60"
    unfolding c rs Let_def by (simp add: js_round_def)
  from split_tick [OF prod.collapse [symmetric], where e = brokenSplitEnv and now = 1000 and s = longHighHistory]
  have 4: "fst (recomputeSplit brokenSplitEnv 1000 longHighHistory) = Threw
         \<and> recentNoteOns (snd (recomputeSplit brokenSplitEnv 1000 longHighHistory)) = replicate 130 80"
    unfolding d rs Let_def by (simp add: js_round_def brokenSplitEnv_def)
  from 1 2 3 4 show ?thesis by simp
qed

text \<open>
  C8 as stated fails twice. Eight C4 are fed, a tick leaves the split at 60, then only
  seven pitches 80 are fed before the next tick, which moves the split to 64: the guard
  counts the rolling history, not the notes fed since the last tick. And at the tick
  after that the midpoint is 70, six semitones from the split 64, yet the clamped value
  is the split itself and no SplitChangeEvent is emitted.
\<close>

theorem split_tick_counterexample:
  "splitPoint (exec exampleEnv (eightAtSixty @ [IntervalFires 1 1000]) (construct DEFAULTS)) = 60
   \<and> splitPoint (exec exampleEnv (eightAtSixty @ [IntervalFires 1 1000] @ sevenAtEighty @ [IntervalFires 1 2000])
        (construct DEFAULTS)) = 64
   \<and> quartileCenter (recentNoteOns (exec exampleEnv (eightAtSixty @ [IntervalFires 1 1000] @ sevenAtEighty
        @ [IntervalFires 1 2000, TimeoutFires 5 2044]) (construct DEFAULTS))) = 70
   \<and> emittedSplits (exec exampleEnv (eightAtSixty @ [IntervalFires 1 1000] @ sevenAtEighty
        @ [IntervalFires 1 2000, TimeoutFires 5 2044, IntervalFires 1 3000]) (construct DEFAULTS))
     = emittedSplits (exec exampleEnv (eightAtSixty @ [IntervalFires 1 1000] @ sevenAtEighty
        @ [IntervalFires 1 2000, TimeoutFires 5 2044]) (construct DEFAULTS))"
  by (simp add: eval_defs eightAtSixty_def sevenAtEighty_def exampleEnv_def)

section \<open>Failures of subscribers and of the chord-naming collaborator\<close>

text \<open>
  C1, as amended. emitChord invokes the subscribed callbacks in subscription order and
  touches nothing in the manager. If no callback throws, every subscribed callback is
  invoked with the event and emitChord returns. If a callback throws, the exception is
  not caught: it leaves emitChord, the callbacks subscribed before the failing one (and
  the failing one) have been invoked, and those subscribed after it are not invoked.
\<close>

theorem emitChord_delivery:
  assumes "emitChord e evt s = (out, s')"
  shows "s' = s\<lparr>emittedChords := emittedChords s @ [evt], deliveredChords := deliveredChords s'\<rparr>
       \<and> ((\<forall>cb \<in> set (chordCallbacks s). \<not> chordThrows e cb evt) \<longrightarrow>
             out = Returned
           \<and> deliveredChords s' = deliveredChords s @ map (\<lambda>cb. (cb, evt)) (chordCallbacks s))
       \<and> (\<forall>before cb after.
             chordCallbacks s = before @ cb # after
             \<and> (\<forall>b \<in> set before. \<not> chordThrows e b evt) \<and> chordThrows e cb evt \<longrightarrow>
             out = Threw
           \<and> deliveredChords s' = deliveredChords s @ map (\<lambda>c. (c, evt)) (before @ [cb]))"
proof -
  have 1: "s' = s\<lparr>emittedChords := emittedChords s @ [evt], deliveredChords := deliveredChords s'\<rparr>"
    using assms by (auto simp: emitChord_def Let_def split: prod.splits)
  have 2: "out = Returned \<and> deliveredChords s' = deliveredChords s @ map (\<lambda>cb. (cb, evt)) (chordCallbacks s)"
    if "\<forall>cb \<in> set (chordCallbacks s). \<not> chordThrows e cb evt"
    using assms that invokeAll_quiet [where throws = "chordThrows e" and cbs = "chordCallbacks s" and evt = evt]
    by (auto simp: emitChord_def Let_def)
  have 3: "out = Threw \<and> deliveredChords s' = deliveredChords s @ map (\<lambda>c. (c, evt)) (before @ [cb])"
    if "chordCallbacks s = before @ cb # after" "\<forall>b \<in> set before. \<not> chordThrows e b evt" "chordThrows e cb evt"
    for before cb after
    using assms that
      invokeAll_thrower [where throws = "chordThrows e" and before = before and cb = cb and after = after and evt = evt]
    by (auto simp: emitChord_def Let_def)
  from 1 2 3 show ?thesis by blast
qed

theorem emitChord_delivery_witness:
  "deliveredChords (snd (emitChord exampleEnv exampleEvent
       (exec exampleEnv [OnChord 1, OnChord 2] (construct DEFAULTS)))) = [(1, exampleEvent), (2, exampleEvent)]
   \<and> deliveredChords (snd (emitChord brokenSubscriberEnv exampleEvent
       (exec brokenSubscriberEnv [OnChord 0, OnChord 1, OnChord 2] (construct DEFAULTS))))
       = [(0, exampleEvent), (1, exampleEvent)]
   \<and> fst (emitChord brokenSubscriberEnv exampleEvent
       (exec brokenSubscriberEnv [OnChord 0, OnChord 1, OnChord 2] (construct DEFAULTS))) = Threw"
proof -
  let ?a = "exec exampleEnv [OnChord 1, OnChord 2] (construct DEFAULTS)"
  let ?b = "exec brokenSubscriberEnv [OnChord 0, OnChord 1, OnChord 2] (construct DEFAULTS)"
  have a: "chordCallbacks ?a = [1, 2]" "deliveredChords ?a = []"
    by (simp_all add: eval_defs)
  have qa: "\<forall>cb \<in> set (chordCallbacks ?a). \<not> chordThrows exampleEnv cb exampleEvent"
    by (simp add: exampleEnv_def)
  have b: "chordCallbacks ?b = [0] @ 1 # [2]" "deliveredChords ?b = []"
    by (simp_all add: eval_defs)
  have qb: "\<forall>b \<in> set [0]. \<not> chordThrows brokenSubscriberEnv b exampleEvent"
    "chordThrows brokenSubscriberEnv 1 exampleEvent"
    by (simp_all add: brokenSubscriberEnv_def)
  from emitChord_delivery [OF prod.collapse [symmetric], where e = exampleEnv and evt = exampleEvent and s = ?a] qa
  have 1: "deliveredChords (snd (emitChord exampleEnv exampleEvent ?a)) = [(1, exampleEvent), (2, exampleEvent)]"
    unfolding a by simp
  from emitChord_delivery [OF prod.collapse [symmetric], where e = brokenSubscriberEnv and evt = exampleEvent and s = ?b]
    b(1) qb
  have "fst (emitChord brokenSubscriberEnv exampleEvent ?b) = Threw
      \<and> deliveredChords (snd (emitChord brokenSubscriberEnv exampleEvent ?b))
          = deliveredChords ?b @ map (\<lambda>c. (c, exampleEvent)) ([0] @ [1])"
    by blast
  then have 2: "fst (emitChord brokenSubscriberEnv exampleEvent ?b) = Threw
      \<and> deliveredChords (snd (emitChord brokenSubscriberEnv exampleEvent ?b)) = [(0, exampleEvent), (1, exampleEvent)]"
    unfolding b(2) by simp
  from 1 2 show ?thesis by simp
qed

text \<open>
  C1 as stated fails. Two subscribers, the first of which throws; a C major triad is
  played and the right-hand timer fires. The second subscriber is never invoked, the
  exception leaves the timer callback, and processBuffer never reaches resetBuffer: the
  buffer keeps its three notes and its window start with no timer pending.
\<close>

theorem emitChord_isolation_counterexample:
  "chordCallbacks (exec brokenSubscriberEnv ([OnChord 1, OnChord 2] @ triad) (construct DEFAULTS)) = [1, 2]
   \<and> map fst (deliveredChords (exec brokenSubscriberEnv ([OnChord 1, OnChord 2] @ triad @ [TimeoutFires 2 1050])
        (construct DEFAULTS))) = [1]
   \<and> uncaught (exec brokenSubscriberEnv ([OnChord 1, OnChord 2] @ triad @ [TimeoutFires 2 1050])
        (construct DEFAULTS)) = 1
   \<and> firstTime (bufferR (exec brokenSubscriberEnv ([OnChord 1, OnChord 2] @ triad @ [TimeoutFires 2 1050])
        (construct DEFAULTS))) = Some 1000
   \<and> map midi (bufNotes (bufferR (exec brokenSubscriberEnv ([OnChord 1, OnChord 2] @ triad @ [TimeoutFires 2 1050])
        (construct DEFAULTS)))) = [60, 64, 67]
   \<and> pendingTimeouts (exec brokenSubscriberEnv ([OnChord 1, OnChord 2] @ triad @ [TimeoutFires 2 1050])
        (construct DEFAULTS)) = []"
  by (simp add: eval_defs triad_def brokenSubscriberEnv_def)

text \<open>
  C2, as amended. For a buffer close that gets past the guard of processBuffer (window
  start set and nonzero, notes present) and whose role is Chord, Dyad or Cluster: if
  Chord.detect returns a null-like value or an empty list, the event is emitted with
  name null, no inversion and no root, and with hand, notes, pitch classes, role,
  velocities, window duration and timestamp computed as usual; if Chord.detect throws,
  the exception is not caught: processBuffer throws and leaves the state as it was, so no
  event is emitted and the buffer is not reset.
\<close>

theorem collaborator_failure:
  assumes "firstTime (getBuf h s) = Some ft" and "ft \<noteq> 0" and "bufNotes (getBuf h s) \<noteq> []"
    and "noteSet = gatherNoteSet (cfg s) h (bufNotes (getBuf h s)) (activeNotes s)"
    and "pcs = sort (js_set (map (\<lambda>n. js_rem n 12) noteSet))"
    and "classifyRole (cfg s) h noteSet pcs (now - ft) \<in> {Chord, Dyad, Cluster}"
  shows "(detect e (map pcToNote pcs) = DetectThrows \<longrightarrow> processBuffer e h now s = (Threw, s))
       \<and> (detect e (map pcToNote pcs) = DetectNull \<or> detect e (map pcToNote pcs) = DetectNames [] \<longrightarrow>
            (\<exists>ev. emittedChords (snd (processBuffer e h now s)) = emittedChords s @ [ev]
               \<and> ce_name ev = None \<and> inversion ev = None \<and> ce_root ev = None
               \<and> ce_hand ev = h \<and> ce_notes ev = noteSet \<and> pitchClasses ev = pcs
               \<and> role ev = classifyRole (cfg s) h noteSet pcs (now - ft)
               \<and> velocities ev = map (\<lambda>v. blendVelocity (velocity v)
                     (median (map velocity (bufNotes (getBuf h s))))
                     (if h = R then velocityBlendRight (cfg s) else velocityBlendLeft (cfg s)))
                   (bufNotes (getBuf h s))
               \<and> rawWindowMs ev = now - ft \<and> ce_timestamp ev = now))"
proof -
  have guard: "\<not> (firstTime (getBuf h s) = None \<or> firstTime (getBuf h s) = Some 0 \<or> bufNotes (getBuf h s) = [])"
    using assms(1-3) by simp
  have throws: "processBuffer e h now s = (Threw, s)" if "detect e (map pcToNote pcs) = DetectThrows"
  proof -
    have "composeEvent e h now s = Inl ()"
      using assms(1,6) detectChord_cases(1) [OF that]
      unfolding assms(4,5) composeEvent_def Let_def by auto
    with guard show ?thesis
      by (simp add: processBuffer_def Let_def)
  qed
  have quiet: "\<exists>ev. emittedChords (snd (processBuffer e h now s)) = emittedChords s @ [ev]
               \<and> ce_name ev = None \<and> inversion ev = None \<and> ce_root ev = None
               \<and> ce_hand ev = h \<and> ce_notes ev = noteSet \<and> pitchClasses ev = pcs
               \<and> role ev = classifyRole (cfg s) h noteSet pcs (now - ft)
               \<and> velocities ev = map (\<lambda>v. blendVelocity (velocity v)
                     (median (map velocity (bufNotes (getBuf h s))))
                     (if h = R then velocityBlendRight (cfg s) else velocityBlendLeft (cfg s)))
                   (bufNotes (getBuf h s))
               \<and> rawWindowMs ev = now - ft \<and> ce_timestamp ev = now"
    if "detect e (map pcToNote pcs) = DetectNull \<or> detect e (map pcToNote pcs) = DetectNames []"
  proof -
    from that have dn: "detectChord e pcs = Inr None"
      using detectChord_cases(2,3) by blast
    obtain ev where ev: "composeEvent e h now s = Inr ev" and nm: "ce_name ev = None"
      and iv: "inversion ev = None" and rt: "ce_root ev = None"
      using assms(1,6) dn unfolding assms(4,5) composeEvent_def Let_def by auto
    have em: "emittedChords (snd (processBuffer e h now s)) = emittedChords s @ [ev]"
      unfolding processBuffer_emittedChords using guard ev by simp
    from composeEvent_fields [OF ev] assms(1) nm iv rt em show ?thesis
      unfolding assms(4,5) by (intro exI [of _ ev]) simp
  qed
  from throws quiet show ?thesis by blast
qed

theorem collaborator_failure_witness:
  "processBuffer brokenDetectEnv R 1050 (exec brokenDetectEnv triad (construct DEFAULTS))
     = (Threw, exec brokenDetectEnv triad (construct DEFAULTS))
   \<and> ce_name (last (emittedChords (snd (processBuffer silentEnv R 1050
         (exec silentEnv triad (construct DEFAULTS)))))) = None
   \<and> ce_notes (last (emittedChords (snd (processBuffer silentEnv R 1050
         (exec silentEnv triad (construct DEFAULTS)))))) = [60, 64, 67]
   \<and> length (emittedChords (snd (processBuffer silentEnv R 1050
         (exec silentEnv triad (construct DEFAULTS))))) = 1"
proof -
  let ?a = "exec brokenDetectEnv triad (construct DEFAULTS)"
  let ?b = "exec silentEnv triad (construct DEFAULTS)"
  have a: "firstTime (getBuf R ?a) = Some 1000" "bufNotes (getBuf R ?a) \<noteq> []"
    "[60, 64, 67] = gatherNoteSet (cfg ?a) R (bufNotes (getBuf R ?a)) (activeNotes ?a)"
    by (simp_all add: eval_defs triad_def)
  have b: "firstTime (getBuf R ?b) = Some 1000" "bufNotes (getBuf R ?b) \<noteq> []"
    "[60, 64, 67] = gatherNoteSet (cfg ?b) R (bufNotes (getBuf R ?b)) (activeNotes ?b)"
    "emittedChords ?b = []"
    by (simp_all add: eval_defs triad_def)
  have nz: "(1000::real) \<noteq> 0" by simp
  have pcs: "[0, 4, 7] = sort (js_set (map (\<lambda>n. js_rem n 12) [60, 64, 67]))"
    by (simp add: js_set_def js_rem_def)
  have ra: "classifyRole (cfg ?a) R [60, 64, 67] [0, 4, 7] (1050 - 1000) \<in> {Chord, Dyad, Cluster}"
    by (simp add: eval_defs triad_def)
  have rb: "classifyRole (cfg ?b) R [60, 64, 67] [0, 4, 7] (1050 - 1000) \<in> {Chord, Dyad, Cluster}"
    by (simp add: eval_defs triad_def)
  have da: "detect brokenDetectEnv (map pcToNote [0, 4, 7]) = DetectThrows"
    by (simp add: brokenDetectEnv_def)
  have db: "detect silentEnv (map pcToNote [0, 4, 7]) = DetectNull"
    by (simp add: silentEnv_def)
  from collaborator_failure [OF a(1) nz a(2) a(3) pcs ra, of brokenDetectEnv] da
  have 1: "processBuffer brokenDetectEnv R 1050 ?a = (Threw, ?a)"
    by blast
  from collaborator_failure [OF b(1) nz b(2) b(3) pcs rb, of silentEnv] db
  obtain ev where "emittedChords (snd (processBuffer silentEnv R 1050 ?b)) = emittedChords ?b @ [ev]"
    "ce_name ev = None" "ce_notes ev = [60, 64, 67]"
    by blast
  then have 2: "ce_name (last (emittedChords (snd (processBuffer silentEnv R 1050 ?b)))) = None
      \<and> ce_notes (last (emittedChords (snd (processBuffer silentEnv R 1050 ?b)))) = [60, 64, 67]
      \<and> length (emittedChords (snd (processBuffer silentEnv R 1050 ?b))) = 1"
    by (simp add: b(4))
  from 1 2 show ?thesis by simp
qed

text \<open>
  C2 as stated fails when Chord.detect throws: after the triad and the timer, no event
  has been emitted, one exception has left the timer callback and the buffer still
  holds the three notes.
\<close>

theorem collaborator_failure_counterexample:
  "emittedChords (exec brokenDetectEnv (triad @ [TimeoutFires 2 1050]) (construct DEFAULTS)) = []
   \<and> uncaught (exec brokenDetectEnv (triad @ [TimeoutFires 2 1050]) (construct DEFAULTS)) = 1
   \<and> firstTime (bufferR (exec brokenDetectEnv (triad @ [TimeoutFires 2 1050]) (construct DEFAULTS))) = Some 1000
   \<and> map midi (bufNotes (bufferR (exec brokenDetectEnv (triad @ [TimeoutFires 2 1050]) (construct DEFAULTS))))
       = [60, 64, 67]"
  by (simp add: eval_defs triad_def brokenDetectEnv_def)

section \<open>Disposal\<close>

text \<open>
  C3. Let s be any state a manager reaches from its construction, and d any state reached
  after \<open>dispose()\<close> was called in s by further calls and firing attempts of timers. Then
  in d the calls handleNoteOn, handleNoteOff and handleControlChange return normally and
  change nothing, no timeout and no interval of the manager is pending, and since the
  disposal no ChordEvent and no SplitChangeEvent was emitted or delivered and no
  exception was thrown.
\<close>

theorem disposal_is_terminal:
  assumes "s = exec e evs (construct c)" and "d = exec e later (dispose s)"
  shows "handleNoteOn e m v t now d = (Returned, d)
       \<and> handleNoteOff m d = d
       \<and> handleControlChange k x d = d
       \<and> pendingTimeouts d = [] \<and> pendingIntervals d = []
       \<and> emittedChords d = emittedChords s \<and> deliveredChords d = deliveredChords s
       \<and> emittedSplits d = emittedSplits s \<and> deliveredSplits d = deliveredSplits s
       \<and> uncaught d = uncaught s"
proof -
  have "terminal (dispose s)"
    unfolding assms(1) by (rule dispose_terminal [OF reachable_owned])
  then have d: "terminal d" and o: "observations d = observations (dispose s)"
    unfolding assms(2) exec_def using terminal_fold by blast+
  from o have "observations d = observations s"
    by (simp add: dispose_simps)
  with d terminal_entry_points [OF d] show ?thesis
    by (simp add: observations_def terminal_def)
qed

theorem disposal_is_terminal_witness:
  "pendingTimeouts (exec exampleEnv triad (construct DEFAULTS)) = [(2, R, 50)]
   \<and> emittedChords (exec exampleEnv [NoteOn 60 100 1020 1020, TimeoutFires 2 1050, IntervalFires 1 2000]
        (dispose (exec exampleEnv triad (construct DEFAULTS)))) = []
   \<and> emittedSplits (exec exampleEnv [NoteOn 60 100 1020 1020, TimeoutFires 2 1050, IntervalFires 1 2000]
        (dispose (exec exampleEnv triad (construct DEFAULTS)))) = []
   \<and> uncaught (exec exampleEnv [NoteOn 60 100 1020 1020, TimeoutFires 2 1050, IntervalFires 1 2000]
        (dispose (exec exampleEnv triad (construct DEFAULTS)))) = 0"
proof -
  have s: "pendingTimeouts (exec exampleEnv triad (construct DEFAULTS)) = [(2, R, 50)]"
    "emittedChords (exec exampleEnv triad (construct DEFAULTS)) = []"
    "emittedSplits (exec exampleEnv triad (construct DEFAULTS)) = []"
    "uncaught (exec exampleEnv triad (construct DEFAULTS)) = 0"
    by (simp_all add: eval_defs triad_def)
  from disposal_is_terminal [where e = exampleEnv and evs = triad and c = DEFAULTS
      and later = "[NoteOn 60 100 1020 1020, TimeoutFires 2 1050, IntervalFires 1 2000]", OF refl refl] s
  show ?thesis by simp
qed

section \<open>Early close and the round trip\<close>

text \<open>
  C5, as amended. When a note is appended to a buffer whose window is already open and
  the buffer then holds at least the hand's earlyCloseCount notes while the note's time
  is less than 60% of the hand's window after the window start, the pending timer is
  cancelled (the buffer holds no handle and the old handle is no longer pending) and
  processBuffer runs in the same call. If the window start is not 0 and neither
  Chord.detect nor a subscriber throws, the call returns with exactly one more event
  emitted, stamped with the time of the call and made of the buffered notes with the new
  one, and with the buffer reset. The note that opens a window is not checked against
  earlyCloseCount.
\<close>

theorem early_close:
  assumes "firstTime (getBuf h s) = Some ft"
    and "earlyCount = (if h = L then earlyCloseCountLeft (cfg s) else earlyCloseCountRight (cfg s))"
    and "window = (if h = L then chordWindowMsLeft (cfg s) else chordWindowMsRight (cfg s))"
    and "earlyCount \<le> int (length (bufNotes (getBuf h s))) + 1"
    and "time note - ft < window * (6 / 10)"
    and "pushToBuffer e h note now s = (out, s')"
  shows "timer (getBuf h s') = None
       \<and> (\<forall>t. timer (getBuf h s) = Some t \<longrightarrow> t \<notin> fst ` set (pendingTimeouts s'))
       \<and> (ft \<noteq> 0 \<and> (\<forall>ns. detect e ns \<noteq> DetectThrows) \<and> (\<forall>cb ev. \<not> chordThrows e cb ev) \<longrightarrow>
            out = Returned \<and> bufNotes (getBuf h s') = [] \<and> firstTime (getBuf h s') = None
          \<and> (\<exists>ev. emittedChords s' = emittedChords s @ [ev]
                 \<and> ce_timestamp ev = now \<and> ce_hand ev = h
                 \<and> ce_notes ev = gatherNoteSet (cfg s) h (bufNotes (getBuf h s) @ [note]) (activeNotes s)
                 \<and> length (velocities ev) = length (bufNotes (getBuf h s)) + 1))"
proof -
  let ?b = "(getBuf h s)\<lparr>bufNotes := bufNotes (getBuf h s) @ [note]\<rparr>"
  let ?c = "clearTimer h (putBuf h ?b s)"
  have push: "pushToBuffer e h note now s = processBuffer e h now ?c"
    using assms(1-5) by (simp add: pushToBuffer_def Let_def)
  have s': "s' = snd (processBuffer e h now ?c)" and out: "out = fst (processBuffer e h now ?c)"
    using assms(6) [unfolded push] by simp_all
  have c: "getBuf h ?c = ?b\<lparr>timer := None\<rparr>" "activeNotes ?c = activeNotes s" "cfg ?c = cfg s"
    "emittedChords ?c = emittedChords s"
    by (simp_all add: clearTimer_simps bufferStep_frame [OF bufferStep_trans [OF bufferStep_putBuf bufferStep_clearTimer]])
  have 1: "timer (getBuf h s') = None"
    unfolding s' by (rule processBuffer_timer_None) (simp add: c)
  have 2: "t \<notin> fst ` set (pendingTimeouts s')" if "timer (getBuf h s) = Some t" for t
  proof -
    have "t \<notin> fst ` set (pendingTimeouts ?c)"
      using that by (auto simp: clearTimer_simps)
    with processBuffer_pending_subset [of e h now ?c] show ?thesis
      unfolding s' by auto
  qed
  have 3: "out = Returned \<and> bufNotes (getBuf h s') = [] \<and> firstTime (getBuf h s') = None
          \<and> (\<exists>ev. emittedChords s' = emittedChords s @ [ev]
                 \<and> ce_timestamp ev = now \<and> ce_hand ev = h
                 \<and> ce_notes ev = gatherNoteSet (cfg s) h (bufNotes (getBuf h s) @ [note]) (activeNotes s)
                 \<and> length (velocities ev) = length (bufNotes (getBuf h s)) + 1)"
    if nz: "ft \<noteq> 0" and nd: "\<forall>ns. detect e ns \<noteq> DetectThrows" and nc: "\<forall>cb ev. \<not> chordThrows e cb ev"
  proof -
    obtain ev where ev: "composeEvent e h now ?c = Inr ev"
      using composeEvent_total [OF nd] by blast
    have pb: "processBuffer e h now ?c = (Returned, resetBuffer h (snd (emitChord e ev ?c)))"
      by (rule processBuffer_quiet [OF _ nz _ ev emitChord_quiet [OF nc]])
         (simp_all add: c assms(1))
    have "emittedChords s' = emittedChords s @ [ev]"
      unfolding s' pb by (simp add: c)
    moreover have "bufNotes (getBuf h s') = []" "firstTime (getBuf h s') = None"
      unfolding s' pb by (simp_all add: resetBuffer_simps)
    moreover have "out = Returned"
      unfolding out pb by simp
    ultimately show ?thesis
      using composeEvent_fields [OF ev] by (intro conjI exI [of _ ev]) (simp_all add: c)
  qed
  from 1 2 3 show ?thesis by blast
qed

theorem early_close_witness:
  "timer (getBuf R (snd (pushToBuffer exampleEnv R \<lparr>midi = 72, velocity = 95, time = 1015\<rparr> 1015
      (exec exampleEnv triad (construct DEFAULTS))))) = None
   \<and> 2 \<notin> fst ` set (pendingTimeouts (snd (pushToBuffer exampleEnv R \<lparr>midi = 72, velocity = 95, time = 1015\<rparr> 1015
      (exec exampleEnv triad (construct DEFAULTS)))))
   \<and> map ce_notes (emittedChords (snd (pushToBuffer exampleEnv R \<lparr>midi = 72, velocity = 95, time = 1015\<rparr> 1015
      (exec exampleEnv triad (construct DEFAULTS))))) = [[60, 64, 67, 72]]
   \<and> map ce_timestamp (emittedChords (snd (pushToBuffer exampleEnv R \<lparr>midi = 72, velocity = 95, time = 1015\<rparr> 1015
      (exec exampleEnv triad (construct DEFAULTS))))) = [1015]"
proof -
  let ?s = "exec exampleEnv triad (construct DEFAULTS)"
  let ?n = "\<lparr>midi = 72, velocity = 95, time = 1015\<rparr>"
  let ?s' = "snd (pushToBuffer exampleEnv R ?n 1015 ?s)"
  have s: "firstTime (getBuf R ?s) = Some 1000" "timer (getBuf R ?s) = Some 2"
    "(4::int) = (if R = L then earlyCloseCountLeft (cfg ?s) else earlyCloseCountRight (cfg ?s))"
    "(50::real) = (if R = L then chordWindowMsLeft (cfg ?s) else chordWindowMsRight (cfg ?s))"
    "(4::int) \<le> int (length (bufNotes (getBuf R ?s))) + 1"
    "time ?n - 1000 < (50::real) * (6 / 10)"
    "emittedChords ?s = []"
    "gatherNoteSet (cfg ?s) R (bufNotes (getBuf R ?s) @ [?n]) (activeNotes ?s) = [60, 64, 67, 72]"
    by (simp_all add: eval_defs triad_def)
  have q: "(1000::real) \<noteq> 0 \<and> (\<forall>ns. detect exampleEnv ns \<noteq> DetectThrows)
        \<and> (\<forall>cb ev. \<not> chordThrows exampleEnv cb ev)"
    by (simp add: exampleEnv_def)
  note th = early_close [OF s(1) s(3) s(4) s(5) s(6) prod.collapse [symmetric], where e = exampleEnv and now = 1015]
  from th s(2) have 1: "timer (getBuf R ?s') = None" "2 \<notin> fst ` set (pendingTimeouts ?s')"
    by blast+
  from th q obtain ev where "emittedChords ?s' = emittedChords ?s @ [ev]" "ce_timestamp ev = 1015"
    "ce_notes ev = gatherNoteSet (cfg ?s) R (bufNotes (getBuf R ?s) @ [?n]) (activeNotes ?s)"
    by blast
  then have 2: "map ce_notes (emittedChords ?s') = [[60, 64, 67, 72]]"
    "map ce_timestamp (emittedChords ?s') = [1015]"
    by (simp_all add: s(7,8))
  from 1 2 show ?thesis by simp
qed

text \<open>
  C5 as stated fails for the note that opens a window. With earlyCloseCountRight = 1 the
  first right-hand note brings the buffer to earlyCloseCount notes at elapsed time 0, yet
  the buffer stays open with its 50 ms timer pending and nothing is emitted.
\<close>

theorem early_close_counterexample:
  "earlyCloseCountRight (cfg (exec exampleEnv [NoteOn 60 100 1000 1000] (construct eagerConfig))) = 1
   \<and> map time (bufNotes (bufferR (exec exampleEnv [NoteOn 60 100 1000 1000] (construct eagerConfig)))) = [1000]
   \<and> firstTime (bufferR (exec exampleEnv [NoteOn 60 100 1000 1000] (construct eagerConfig))) = Some 1000
   \<and> pendingTimeouts (exec exampleEnv [NoteOn 60 100 1000 1000] (construct eagerConfig)) = [(2, R, 50)]
   \<and> emittedChords (exec exampleEnv [NoteOn 60 100 1000 1000] (construct eagerConfig)) = []"
  by (simp add: eval_defs eagerConfig_def)

text \<open>
  C4. Round trip: with the default configuration, the three note-ons of a C major triad
  within 10 ms are to give, once the right-hand window closes, exactly one ChordEvent
  with role Chord, pitch classes 0, 4, 7 and hand Right. This theorem runs the scenario
  with the first note arriving at time 0, 5 and 10 for the others: the three notes are
  buffered with the 50 ms timer pending, and when the timer fires the guard
  \<open>!buf.firstTime\<close> of processBuffer takes the window start 0 for a missing one, so the
  buffer is reset and no event is emitted. For every other first arrival time the
  scenario gives the event (lemma \<open>round_trip_nonzero_start\<close> above).
\<close>

theorem round_trip_zero_start:
  "pendingTimeouts (exec exampleEnv zeroStartRun (construct DEFAULTS)) = [(2, R, 50)]
   \<and> map midi (bufNotes (bufferR (exec exampleEnv zeroStartRun (construct DEFAULTS)))) = [60, 64, 67]
   \<and> emittedChords (exec exampleEnv (zeroStartRun @ [TimeoutFires 2 50]) (construct DEFAULTS)) = []
   \<and> bufNotes (bufferR (exec exampleEnv (zeroStartRun @ [TimeoutFires 2 50]) (construct DEFAULTS))) = []
   \<and> pendingTimeouts (exec exampleEnv (zeroStartRun @ [TimeoutFires 2 50]) (construct DEFAULTS)) = []
   \<and> uncaught (exec exampleEnv (zeroStartRun @ [TimeoutFires 2 50]) (construct DEFAULTS)) = 0"
  by (simp add: eval_defs zeroStartRun_def exampleEnv_def)

end
